theory Spec2Isabelle
  imports Main "HOL-Library.Word"
begin

section \<open>The AES-ECB provider: buffering and padding around a block transform\<close>

text \<open>
  A shallow embedding of \<^verbatim>\<open>providers/common/ciphers/aes.c\<close>.  Sizes (\<^verbatim>\<open>size_t\<close>) are
  natural numbers: every size in the file is bounded by the length of a buffer the
  caller really holds plus one block, far from the wrap-around of \<^verbatim>\<open>size_t\<close>.
  A byte is an 8-bit word.  The input pointer and its length \<^verbatim>\<open>(in, inl)\<close> are one
  list; advancing the pointer by \<open>n\<close> is \<open>drop n\<close>.
\<close>

type_synonym byte = "8 word"

definition AES_BLOCK_SIZE :: nat where
  "AES_BLOCK_SIZE = 16"

definition EVP_CIPH_ECB_MODE :: nat where
  "EVP_CIPH_ECB_MODE = 1"

text \<open>
  The context \<^verbatim>\<open>PROV_AES_KEY\<close>.  Its declaration is in \<^verbatim>\<open>ciphers_locl.h\<close>; the fields
  are the ones \<^verbatim>\<open>aes.c\<close> reads and writes.  \<open>iv\<close> and \<open>buf\<close> are arrays inside the
  struct (\<^verbatim>\<open>newctx\<close> allocates \<^verbatim>\<open>sizeof(*ctx)\<close> and nothing else, \<^verbatim>\<open>freectx\<close> releases
  the struct and nothing else), \<open>bufsz\<close> is the separate fill counter, \<open>pad\<close> a
  one-bit flag.  The key schedule \<open>ks\<close> is opaque: its type is a parameter.
\<close>

record 'k PROV_AES_KEY =
  ks :: 'k
  mode :: nat
  enc :: bool
  iv :: "byte list"
  buf :: "byte list"
  bufsz :: nat
  keylen :: nat
  pad :: bool

text \<open>
  The function table \<^verbatim>\<open>ctx->ciph\<close> (\<^verbatim>\<open>PROV_AES_CIPHER\<close>), supplied from outside this
  file, is a parameter of every operation.  Both entries receive the whole context to
  read; what they write is the key schedule.  \<open>init\<close> returns its status and the new
  key schedule; \<open>cipher\<close> returns the new key schedule and the bytes written to the
  output, or \<open>None\<close> for status 0.
\<close>

record 'k PROV_AES_CIPHER =
  init :: "'k PROV_AES_KEY \<Rightarrow> byte list \<Rightarrow> nat \<Rightarrow> bool \<times> 'k"
  cipher :: "'k PROV_AES_KEY \<Rightarrow> byte list \<Rightarrow> 'k \<times> byte list option"

text \<open>\<^verbatim>\<open>memcpy(dst + off, src, length src)\<close> on a fixed array.\<close>

definition memcpy_at :: "byte list \<Rightarrow> nat \<Rightarrow> byte list \<Rightarrow> byte list" where
  "memcpy_at dst off src = take off dst @ src @ drop (off + length src) dst"

subsection \<open>The block helpers\<close>

text \<open>
  Modelled from the spec: \<^verbatim>\<open>fillblock\<close>, whose body is outside this file (section 4.1,
  Block Accumulator).  It tops the pending buffer up towards a full block with bytes
  from the front of the input, and returns the largest multiple of the block size that
  fits in the input that remains.  Result: buffer, fill count, remaining input,
  \<^verbatim>\<open>nextblocks\<close>.
\<close>

definition fillblock ::
  "byte list \<Rightarrow> nat \<Rightarrow> nat \<Rightarrow> byte list \<Rightarrow> byte list \<times> nat \<times> byte list \<times> nat" where
  "fillblock b buflen blocksize inp =
     (let bufremain = min (length inp) (blocksize - buflen);
          inp' = drop bufremain inp
      in (memcpy_at b buflen (take bufremain inp), buflen + bufremain, inp',
          (length inp' div blocksize) * blocksize))"

text \<open>
  Modelled from the spec: \<^verbatim>\<open>trailingdata\<close>, whose body is outside this file (sections
  3, 4.1 and 4.3).  What remains of the input after the whole blocks becomes pending;
  the pending buffer never exceeds one block, so input that does not fit is the
  failure.  Result: buffer, fill count, remaining input.
\<close>

definition trailingdata ::
  "byte list \<Rightarrow> nat \<Rightarrow> nat \<Rightarrow> byte list \<Rightarrow> (byte list \<times> nat \<times> byte list) option" where
  "trailingdata b buflen blocksize inp =
     (if length inp = 0 then Some (b, buflen, inp)
      else if buflen + length inp > blocksize then None
      else Some (memcpy_at b buflen inp, buflen + length inp, []))"

text \<open>
  Modelled from the spec: \<^verbatim>\<open>padblock\<close>, whose body is outside this file (section 4.5).
  The pending bytes are padded up to exactly one block; every pad byte carries the
  pad length.  The fill count is left as it is (\<^verbatim>\<open>aes_final\<close> transforms the whole
  block and resets the count itself).
\<close>

definition padblock :: "byte list \<Rightarrow> nat \<Rightarrow> nat \<Rightarrow> byte list" where
  "padblock b buflen blocksize =
     memcpy_at b buflen (replicate (blocksize - buflen) (of_nat (blocksize - buflen)))"

text \<open>
  Modelled from the spec: \<^verbatim>\<open>unpadblock\<close>, whose body is outside this file (section
  4.5).  It reads the last byte of the block as the pad length, rejects a length
  outside \<open>[1, blocksize]\<close>, rejects unless each of the last bytes, that many, equals
  it, and returns the fill count without the padding.
\<close>

definition unpadblock :: "byte list \<Rightarrow> nat \<Rightarrow> nat \<Rightarrow> nat option" where
  "unpadblock b buflen blocksize =
     (let p = unat (b ! (blocksize - 1)) in
      if p = 0 \<or> p > blocksize then None
      else if list_all (\<lambda>x. unat x = p) (drop (blocksize - p) (take blocksize b))
           then Some (blocksize - p)
           else None)"

subsection \<open>Initialisation\<close>

definition PROV_AES_KEY_generic_init ::
  "'k PROV_AES_KEY \<Rightarrow> byte list option \<Rightarrow> bool \<Rightarrow> 'k PROV_AES_KEY" where
  "PROV_AES_KEY_generic_init ctx iv_opt e =
     (case iv_opt of
        None \<Rightarrow> ctx
      | Some v \<Rightarrow> ctx\<lparr>iv := memcpy_at (iv ctx) 0 (take AES_BLOCK_SIZE v)\<rparr>)\<lparr>enc := e\<rparr>"

definition aes_einit ::
  "'k PROV_AES_CIPHER \<Rightarrow> 'k PROV_AES_KEY \<Rightarrow> byte list option \<Rightarrow> byte list option
     \<Rightarrow> bool \<times> 'k PROV_AES_KEY" where
  "aes_einit ciph ctx key_opt iv_opt =
     (let ctx1 = PROV_AES_KEY_generic_init ctx iv_opt True in
      case key_opt of
        Some k \<Rightarrow> (case init ciph ctx1 k (keylen ctx1) of (r, s) \<Rightarrow> (r, ctx1\<lparr>ks := s\<rparr>))
      | None \<Rightarrow> (True, ctx1))"

definition aes_dinit ::
  "'k PROV_AES_CIPHER \<Rightarrow> 'k PROV_AES_KEY \<Rightarrow> byte list option \<Rightarrow> byte list option
     \<Rightarrow> bool \<times> 'k PROV_AES_KEY" where
  "aes_dinit ciph ctx key_opt iv_opt =
     (let ctx1 = PROV_AES_KEY_generic_init ctx iv_opt False in
      case key_opt of
        Some k \<Rightarrow> (case init ciph ctx1 k (keylen ctx1) of (r, s) \<Rightarrow> (r, ctx1\<lparr>ks := s\<rparr>))
      | None \<Rightarrow> (True, ctx1))"

subsection \<open>Update\<close>

text \<open>
  A call that returns 0 is \<open>Inl\<close> with the context as the call left it; a call that
  returns 1 is \<open>Inr\<close> with the context, the bytes written to \<^verbatim>\<open>out\<close> and \<^verbatim>\<open>*outl\<close>.

  \<open>aes_update_held\<close> is the first conditional of \<^verbatim>\<open>aes_update\<close> (the held block),
  \<open>aes_update_bulk\<close> the second (the whole blocks of the input); \<open>inp\<close> is the input
  that remains after \<^verbatim>\<open>fillblock\<close>.
\<close>

definition aes_update_held ::
  "'k PROV_AES_CIPHER \<Rightarrow> 'k PROV_AES_KEY \<Rightarrow> byte list
     \<Rightarrow> 'k PROV_AES_KEY + ('k PROV_AES_KEY \<times> byte list \<times> nat)" where
  "aes_update_held ciph ctx inp =
     (if bufsz ctx = AES_BLOCK_SIZE \<and> (enc ctx \<or> length inp > 0 \<or> \<not> pad ctx)
      then (case cipher ciph ctx (take AES_BLOCK_SIZE (buf ctx)) of
              (s, None) \<Rightarrow> Inl (ctx\<lparr>ks := s\<rparr>)
            | (s, Some ob) \<Rightarrow> Inr (ctx\<lparr>ks := s, bufsz := 0\<rparr>, ob, AES_BLOCK_SIZE))
      else Inr (ctx, [], 0))"

definition aes_update_bulk ::
  "'k PROV_AES_CIPHER \<Rightarrow> 'k PROV_AES_KEY \<Rightarrow> byte list \<Rightarrow> nat
     \<Rightarrow> 'k PROV_AES_KEY + ('k PROV_AES_KEY \<times> byte list \<times> byte list \<times> nat)" where
  "aes_update_bulk ciph ctx inp nextblocks =
     (if nextblocks > 0
      then (case (if \<not> enc ctx \<and> pad ctx \<and> nextblocks = length inp
                  then (if length inp \<ge> AES_BLOCK_SIZE
                        then Some (nextblocks - AES_BLOCK_SIZE) else None)
                  else Some nextblocks) of
              None \<Rightarrow> Inl ctx
            | Some nb \<Rightarrow>
                (case cipher ciph ctx (take nb inp) of
                   (s, None) \<Rightarrow> Inl (ctx\<lparr>ks := s\<rparr>)
                 | (s, Some ob) \<Rightarrow> Inr (ctx\<lparr>ks := s\<rparr>, drop nb inp, ob, nb)))
      else Inr (ctx, inp, [], 0))"

definition aes_update ::
  "'k PROV_AES_CIPHER \<Rightarrow> 'k PROV_AES_KEY \<Rightarrow> byte list
     \<Rightarrow> 'k PROV_AES_KEY + ('k PROV_AES_KEY \<times> byte list \<times> nat)" where
  "aes_update ciph ctx inp0 =
     (case fillblock (buf ctx) (bufsz ctx) AES_BLOCK_SIZE inp0 of
        (b1, n1, inp1, nextblocks) \<Rightarrow>
          (case aes_update_held ciph (ctx\<lparr>buf := b1, bufsz := n1\<rparr>) inp1 of
             Inl e \<Rightarrow> Inl e
           | Inr (ctx2, out2, outlint2) \<Rightarrow>
               (case aes_update_bulk ciph ctx2 inp1 nextblocks of
                  Inl e \<Rightarrow> Inl e
                | Inr (ctx3, inp3, out3, outlint3) \<Rightarrow>
                    (case trailingdata (buf ctx3) (bufsz ctx3) AES_BLOCK_SIZE inp3 of
                       None \<Rightarrow> Inl ctx3
                     | Some (b4, n4, inp4) \<Rightarrow>
                         if length inp4 = 0
                         then Inr (ctx3\<lparr>buf := b4, bufsz := n4\<rparr>, out2 @ out3,
                                   outlint2 + outlint3)
                         else Inl (ctx3\<lparr>buf := b4, bufsz := n4\<rparr>)))))"

subsection \<open>Final\<close>

text \<open>
  \<open>aes_final_enc\<close> is the tail of the encrypting branch of \<^verbatim>\<open>aes_final\<close>: the block
  in \<open>buf\<close> goes through the transform, the fill count is reset and one block is
  reported.
\<close>

definition aes_final_enc ::
  "'k PROV_AES_CIPHER \<Rightarrow> 'k PROV_AES_KEY
     \<Rightarrow> 'k PROV_AES_KEY + ('k PROV_AES_KEY \<times> byte list \<times> nat)" where
  "aes_final_enc ciph ctx =
     (case cipher ciph ctx (take AES_BLOCK_SIZE (buf ctx)) of
        (s, None) \<Rightarrow> Inl (ctx\<lparr>ks := s\<rparr>)
      | (s, Some ob) \<Rightarrow> Inr (ctx\<lparr>ks := s, bufsz := 0\<rparr>, ob, AES_BLOCK_SIZE))"

definition aes_final ::
  "'k PROV_AES_CIPHER \<Rightarrow> 'k PROV_AES_KEY
     \<Rightarrow> 'k PROV_AES_KEY + ('k PROV_AES_KEY \<times> byte list \<times> nat)" where
  "aes_final ciph ctx =
     (if enc ctx then
        (if pad ctx
         then aes_final_enc ciph (ctx\<lparr>buf := padblock (buf ctx) (bufsz ctx) AES_BLOCK_SIZE\<rparr>)
         else if bufsz ctx = 0 then Inr (ctx, [], 0)
         else if bufsz ctx \<noteq> AES_BLOCK_SIZE then Inl ctx
         else aes_final_enc ciph ctx)
      else if bufsz ctx \<noteq> AES_BLOCK_SIZE then
        (if bufsz ctx = 0 \<and> \<not> pad ctx then Inr (ctx, [], 0) else Inl ctx)
      else
        (case cipher ciph ctx (take AES_BLOCK_SIZE (buf ctx)) of
           (s, None) \<Rightarrow> Inl (ctx\<lparr>ks := s\<rparr>)
         | (s, Some ob) \<Rightarrow>
             let ctx1 = ctx\<lparr>ks := s, buf := memcpy_at (buf ctx) 0 ob\<rparr> in
             (case (if pad ctx1 then unpadblock (buf ctx1) (bufsz ctx1) AES_BLOCK_SIZE
                    else Some (bufsz ctx1)) of
                None \<Rightarrow> Inl ctx1
              | Some n \<Rightarrow> Inr (ctx1\<lparr>bufsz := 0\<rparr>, take n (buf ctx1), n))))"

subsection \<open>Context life cycle\<close>

text \<open>
  \<^verbatim>\<open>OPENSSL_zalloc\<close> gives a zeroed struct; \<open>z\<close> is the all-zero key schedule.  The
  three constructors differ in \<open>keylen\<close> only.
\<close>

definition aes_256_ecb_newctx :: "'k \<Rightarrow> 'k PROV_AES_KEY" where
  "aes_256_ecb_newctx z =
     \<lparr>ks = z, mode = EVP_CIPH_ECB_MODE, enc = False,
      iv = replicate AES_BLOCK_SIZE 0, buf = replicate AES_BLOCK_SIZE 0, bufsz = 0,
      keylen = 256 div 8, pad = True\<rparr>"

definition aes_192_ecb_newctx :: "'k \<Rightarrow> 'k PROV_AES_KEY" where
  "aes_192_ecb_newctx z =
     \<lparr>ks = z, mode = EVP_CIPH_ECB_MODE, enc = False,
      iv = replicate AES_BLOCK_SIZE 0, buf = replicate AES_BLOCK_SIZE 0, bufsz = 0,
      keylen = 192 div 8, pad = True\<rparr>"

definition aes_128_ecb_newctx :: "'k \<Rightarrow> 'k PROV_AES_KEY" where
  "aes_128_ecb_newctx z =
     \<lparr>ks = z, mode = EVP_CIPH_ECB_MODE, enc = False,
      iv = replicate AES_BLOCK_SIZE 0, buf = replicate AES_BLOCK_SIZE 0, bufsz = 0,
      keylen = 128 div 8, pad = True\<rparr>"

text \<open>
  The store: addresses of live contexts.  \<^verbatim>\<open>aes_dupctx\<close> assigns the struct
  \<^verbatim>\<open>*ret = *in\<close> to the address \<^verbatim>\<open>OPENSSL_malloc\<close> returned; the source does not test
  that address, so a null one (\<open>None\<close>) is the crash \<open>None\<close>.  The struct is declared
  outside this file, so what the assignment copies and what it shares is not visible
  here: the store holds a context as one value, and nothing is stated about sharing.
\<close>

type_synonym 'k store = "nat \<Rightarrow> 'k PROV_AES_KEY option"

definition aes_dupctx :: "'k store \<Rightarrow> nat \<Rightarrow> nat option \<Rightarrow> ('k store \<times> nat) option" where
  "aes_dupctx h inp malloc_result =
     (case malloc_result of
        None \<Rightarrow> None
      | Some ret \<Rightarrow> (case h inp of None \<Rightarrow> None | Some c \<Rightarrow> Some (h(ret \<mapsto> c), ret)))"

definition aes_freectx :: "'k store \<Rightarrow> nat \<Rightarrow> 'k store" where
  "aes_freectx h vctx = h(vctx := None)"

subsection \<open>Parameters\<close>

text \<open>
  The parameter functions of the library (\<^verbatim>\<open>OSSL_PARAM_locate\<close>, \<^verbatim>\<open>OSSL_PARAM_get_int\<close>,
  \<^verbatim>\<open>OSSL_PARAM_set_uint\<close>) are supplied from outside this file and are parameters of
  the two accessors.  \<open>locate\<close> returns the index of the element it found (\<open>None\<close> for
  the null pointer), \<open>get_int\<close> the integer read (\<open>None\<close> for status 0), \<open>set_uint\<close>
  the element after the write (\<open>None\<close> for status 0).
\<close>

record 'p OSSL_PARAM_api =
  OSSL_PARAM_locate :: "'p list \<Rightarrow> string \<Rightarrow> nat option"
  OSSL_PARAM_get_int :: "'p \<Rightarrow> int option"
  OSSL_PARAM_set_uint :: "'p \<Rightarrow> nat \<Rightarrow> 'p option"

definition OSSL_CIPHER_PARAM_PADDING :: string where
  "OSSL_CIPHER_PARAM_PADDING = ''padding''"

definition aes_get_params ::
  "'p OSSL_PARAM_api \<Rightarrow> 'k PROV_AES_KEY \<Rightarrow> 'p list \<Rightarrow> bool \<times> 'p list" where
  "aes_get_params api ctx params =
     (case OSSL_PARAM_locate api params OSSL_CIPHER_PARAM_PADDING of
        None \<Rightarrow> (True, params)
      | Some i \<Rightarrow>
          (case OSSL_PARAM_set_uint api (params ! i) (if pad ctx then 1 else 0) of
             None \<Rightarrow> (False, params)
           | Some p' \<Rightarrow> (True, params[i := p'])))"

definition aes_set_params ::
  "'p OSSL_PARAM_api \<Rightarrow> 'k PROV_AES_KEY \<Rightarrow> 'p list \<Rightarrow> bool \<times> 'k PROV_AES_KEY" where
  "aes_set_params api ctx params =
     (case OSSL_PARAM_locate api params OSSL_CIPHER_PARAM_PADDING of
        None \<Rightarrow> (True, ctx)
      | Some i \<Rightarrow>
          (case OSSL_PARAM_get_int api (params ! i) of
             None \<Rightarrow> (False, ctx)
           | Some v \<Rightarrow> (True, ctx\<lparr>pad := (v \<noteq> 0)\<rparr>)))"

subsection \<open>The ECB transform\<close>

text \<open>
  Modelled from the spec: the bulk transform behind \<^verbatim>\<open>PROV_AES_CIPHER_ecb()\<close>, whose
  body is outside this file (section 6, transform primitive).  It processes the whole
  blocks of its input one by one with the single-block function the key schedule
  selects, leaves the key schedule as it is and does not fail.  \<open>key_setup\<close> is the
  table's \<open>init\<close> entry, \<open>block\<close> the single-block function.
\<close>

fun ecb_blocks :: "(byte list \<Rightarrow> byte list) \<Rightarrow> nat \<Rightarrow> byte list \<Rightarrow> byte list" where
  "ecb_blocks f 0 inp = []"
| "ecb_blocks f (Suc n) inp =
     f (take AES_BLOCK_SIZE inp) @ ecb_blocks f n (drop AES_BLOCK_SIZE inp)"

definition ecb_cipher ::
  "('k \<Rightarrow> byte list \<Rightarrow> byte list) \<Rightarrow> 'k PROV_AES_KEY \<Rightarrow> byte list \<Rightarrow> 'k \<times> byte list option" where
  "ecb_cipher block ctx inp =
     (ks ctx, Some (ecb_blocks (block (ks ctx)) (length inp div AES_BLOCK_SIZE) inp))"

definition PROV_AES_CIPHER_ecb ::
  "('k PROV_AES_KEY \<Rightarrow> byte list \<Rightarrow> nat \<Rightarrow> bool \<times> 'k) \<Rightarrow> ('k \<Rightarrow> byte list \<Rightarrow> byte list)
     \<Rightarrow> 'k PROV_AES_CIPHER" where
  "PROV_AES_CIPHER_ecb key_setup block = \<lparr>init = key_setup, cipher = ecb_cipher block\<rparr>"


text \<open>
  A small instance on which the operations can be evaluated: the key schedule is the
  first key byte and the direction at key setup; a block is encrypted by adding the
  key byte to each of its bytes and decrypted by subtracting it.
\<close>

definition shift_key_setup :: "(byte \<times> bool) PROV_AES_KEY \<Rightarrow> byte list \<Rightarrow> nat \<Rightarrow> bool \<times> (byte \<times> bool)" where
  "shift_key_setup ctx k n =
     (case k of [] \<Rightarrow> (False, ks ctx) | x # _ \<Rightarrow> (length k = n, (x, enc ctx)))"

definition shift_block :: "byte \<times> bool \<Rightarrow> byte list \<Rightarrow> byte list" where
  "shift_block s b = map (\<lambda>x. if snd s then x + fst s else x - fst s) b"

definition shift_ciph :: "(byte \<times> bool) PROV_AES_CIPHER" where
  "shift_ciph = PROV_AES_CIPHER_ecb shift_key_setup shift_block"

text \<open>A transform that refuses every call.\<close>

definition failing_ciph :: "'k PROV_AES_CIPHER" where
  "failing_ciph = \<lparr>init = (\<lambda>ctx k n. (False, ks ctx)), cipher = (\<lambda>ctx inp. (ks ctx, None))\<rparr>"

subsection \<open>Notions used to state the properties\<close>

text \<open>The pending bytes: the first \<open>bufsz\<close> bytes of \<open>buf\<close>.\<close>

definition pending :: "'k PROV_AES_KEY \<Rightarrow> byte list" where
  "pending ctx = take (bufsz ctx) (buf ctx)"

text \<open>
  The layout of the struct: \<open>buf\<close> is an array of one block, and the fill count
  does not point past it.
\<close>

definition ctx_ok :: "'k PROV_AES_KEY \<Rightarrow> bool" where
  "ctx_ok ctx = (length (buf ctx) = AES_BLOCK_SIZE \<and> bufsz ctx \<le> AES_BLOCK_SIZE)"

text \<open>
  The number of bytes an update leaves pending when pending and input together are
  \<open>n\<close> bytes: the incomplete block, or one whole block when a padded decryption ends
  on a block boundary.
\<close>

definition held_len :: "'k PROV_AES_KEY \<Rightarrow> nat \<Rightarrow> nat" where
  "held_len ctx n =
     (if \<not> enc ctx \<and> pad ctx \<and> 0 < n \<and> n mod AES_BLOCK_SIZE = 0 then AES_BLOCK_SIZE
      else n mod AES_BLOCK_SIZE)"

text \<open>
  A transform with a journal: the key schedule carries, next to the key schedule of
  the transform it wraps, every input the transform was called with, in order.
\<close>

definition untraced :: "('k \<times> byte list) PROV_AES_KEY \<Rightarrow> 'k PROV_AES_KEY" where
  "untraced c =
     \<lparr>ks = fst (ks c), mode = mode c, enc = enc c, iv = iv c, buf = buf c, bufsz = bufsz c,
      keylen = keylen c, pad = pad c\<rparr>"

definition traced :: "'k PROV_AES_CIPHER \<Rightarrow> ('k \<times> byte list) PROV_AES_CIPHER" where
  "traced ciph =
     \<lparr>init = (\<lambda>c k n. case init ciph (untraced c) k n of (r, s) \<Rightarrow> (r, (s, snd (ks c)))),
      cipher = (\<lambda>c x. case cipher ciph (untraced c) x of (s, r) \<Rightarrow> ((s, snd (ks c) @ x), r))\<rparr>"

text \<open>
  The caller's side of a stream: successive \<^verbatim>\<open>update\<close> calls, one per chunk, each
  reading \<^verbatim>\<open>*outl\<close> bytes of output; then the whole stream with its \<^verbatim>\<open>init\<close> and
  \<^verbatim>\<open>final\<close>.  A call that returns 0 ends the stream.
\<close>

fun aes_updates ::
  "'k PROV_AES_CIPHER \<Rightarrow> 'k PROV_AES_KEY \<Rightarrow> byte list list
     \<Rightarrow> 'k PROV_AES_KEY + ('k PROV_AES_KEY \<times> byte list \<times> nat)" where
  "aes_updates ciph ctx [] = Inr (ctx, [], 0)"
| "aes_updates ciph ctx (x # xs) =
     (case aes_update ciph ctx x of
        Inl e \<Rightarrow> Inl e
      | Inr (ctx1, out1, outl1) \<Rightarrow>
          (case aes_updates ciph ctx1 xs of
             Inl e \<Rightarrow> Inl e
           | Inr (ctx2, out2, outl2) \<Rightarrow> Inr (ctx2, take outl1 out1 @ out2, outl1 + outl2)))"

definition encrypt_stream ::
  "'k PROV_AES_CIPHER \<Rightarrow> 'k PROV_AES_KEY \<Rightarrow> byte list option \<Rightarrow> byte list option
     \<Rightarrow> byte list list \<Rightarrow> ('k PROV_AES_KEY \<times> byte list) option" where
  "encrypt_stream ciph ctx key_opt iv_opt chunks =
     (case aes_einit ciph ctx key_opt iv_opt of
        (False, _) \<Rightarrow> None
      | (True, ctx1) \<Rightarrow>
          (case aes_updates ciph ctx1 chunks of
             Inl _ \<Rightarrow> None
           | Inr (ctx2, out2, outl2) \<Rightarrow>
               (case aes_final ciph ctx2 of
                  Inl _ \<Rightarrow> None
                | Inr (ctx3, out3, outl3) \<Rightarrow> Some (ctx3, out2 @ take outl3 out3))))"


text \<open>
  The calls that take a context, and the context a call leaves behind, whatever its
  status.
\<close>

datatype 'p call =
    Einit "byte list option" "byte list option"
  | Dinit "byte list option" "byte list option"
  | Update "byte list"
  | Final
  | Set_params "'p list"

fun ctx_after ::
  "'k PROV_AES_CIPHER \<Rightarrow> 'p OSSL_PARAM_api \<Rightarrow> 'p call \<Rightarrow> 'k PROV_AES_KEY \<Rightarrow> 'k PROV_AES_KEY" where
  "ctx_after ciph api (Einit k v) c = snd (aes_einit ciph c k v)"
| "ctx_after ciph api (Dinit k v) c = snd (aes_dinit ciph c k v)"
| "ctx_after ciph api (Update x) c =
     (case aes_update ciph c x of Inl e \<Rightarrow> e | Inr (c', _, _) \<Rightarrow> c')"
| "ctx_after ciph api Final c =
     (case aes_final ciph c of Inl e \<Rightarrow> e | Inr (c', _, _) \<Rightarrow> c')"
| "ctx_after ciph api (Set_params ps) c = snd (aes_set_params api c ps)"

text \<open>
  The contexts that any sequence of calls can produce from a fresh one.
\<close>

inductive reachable ::
  "'k PROV_AES_CIPHER \<Rightarrow> 'p OSSL_PARAM_api \<Rightarrow> 'k \<Rightarrow> 'k PROV_AES_KEY \<Rightarrow> bool"
  for ciph :: "'k PROV_AES_CIPHER" and api :: "'p OSSL_PARAM_api" and z :: 'k where
  new256: "reachable ciph api z (aes_256_ecb_newctx z)"
| new192: "reachable ciph api z (aes_192_ecb_newctx z)"
| new128: "reachable ciph api z (aes_128_ecb_newctx z)"
| call: "reachable ciph api z c \<Longrightarrow> reachable ciph api z (ctx_after ciph api op c)"

text \<open>
  A small parameter surface on which the accessors can be evaluated: an element is a
  key with an integer, or with nothing when its data is of another type.
\<close>

fun kv_locate :: "(string \<times> int option) list \<Rightarrow> string \<Rightarrow> nat option" where
  "kv_locate [] k = None"
| "kv_locate (p # ps) k = (if fst p = k then Some 0 else map_option Suc (kv_locate ps k))"

definition kv_api :: "(string \<times> int option) OSSL_PARAM_api" where
  "kv_api =
     \<lparr>OSSL_PARAM_locate = kv_locate,
      OSSL_PARAM_get_int = snd,
      OSSL_PARAM_set_uint = (\<lambda>p v. case snd p of None \<Rightarrow> None | Some _ \<Rightarrow> Some (fst p, Some (int v)))\<rparr>"

text \<open>
  A context of the small instance with a given direction, padding flag and pending
  bytes (at most one block), keyed with the byte 3.
\<close>

definition demo_ctx :: "bool \<Rightarrow> bool \<Rightarrow> byte list \<Rightarrow> (byte \<times> bool) PROV_AES_KEY" where
  "demo_ctx e p bs =
     \<lparr>ks = (3, e), mode = EVP_CIPH_ECB_MODE, enc = e, iv = replicate AES_BLOCK_SIZE 0,
      buf = bs @ replicate (AES_BLOCK_SIZE - length bs) 0, bufsz = length bs,
      keylen = 128 div 8, pad = p\<rparr>"

text \<open>The result of a call under the journal, with the journal removed.\<close>

definition untraced_result ::
  "('k \<times> byte list) PROV_AES_KEY + (('k \<times> byte list) PROV_AES_KEY \<times> byte list \<times> nat)
     \<Rightarrow> 'k PROV_AES_KEY + ('k PROV_AES_KEY \<times> byte list \<times> nat)" where
  "untraced_result r = map_sum untraced (\<lambda>(c, out, outl). (untraced c, out, outl)) r"

text \<open>The same context for the transform with a journal, the journal empty.\<close>

definition demo_traced :: "bool \<Rightarrow> bool \<Rightarrow> byte list \<Rightarrow> ((byte \<times> bool) \<times> byte list) PROV_AES_KEY" where
  "demo_traced e p bs =
     \<lparr>ks = ((3, e), []), mode = EVP_CIPH_ECB_MODE, enc = e, iv = replicate AES_BLOCK_SIZE 0,
      buf = bs @ replicate (AES_BLOCK_SIZE - length bs) 0, bufsz = length bs,
      keylen = 128 div 8, pad = p\<rparr>"

section \<open>What one update does\<close>

subsection \<open>Arithmetic of whole blocks\<close>

lemma div_mult_16: "(m::nat) div 16 * 16 = m - m mod 16"
  by (simp add: minus_mod_eq_div_mult)

lemma div_mult_16_eq: "((m::nat) div 16 * 16 = m) = (m mod 16 = 0)"
proof -
  have "m mod 16 \<le> m" by (rule mod_less_eq_dividend)
  then show ?thesis unfolding div_mult_16 by linarith
qed

lemma bulk_count:
  assumes "16 \<le> m"
  shows "(if \<not> enc c \<and> pad c \<and> (m div 16) * 16 = m
          then (if m \<ge> 16 then Some ((m div 16) * 16 - 16) else None)
          else Some ((m div 16) * 16)) =
         Some (m - held_len c (m + 16))"
proof (cases "\<not> enc c \<and> pad c \<and> m mod 16 = 0")
  case True
  then show ?thesis
    using assms by (simp add: div_mult_16_eq div_mult_16 held_len_def AES_BLOCK_SIZE_def)
next
  case False
  have "held_len c (m + 16) = m mod 16"
    using False by (auto simp add: held_len_def AES_BLOCK_SIZE_def)
  then show ?thesis
    using False by (auto simp add: div_mult_16_eq div_mult_16)
qed

lemma memcpy_at_Nil: "memcpy_at b 0 [] = b"
  by (simp add: memcpy_at_def)

lemma fillblock_short:
  assumes "length b = 16" "n + length inp < 16"
  shows "fillblock b n 16 inp = (memcpy_at b n inp, n + length inp, [], 0)"
proof -
  have "min (length inp) (16 - n) = length inp" using assms by simp
  then show ?thesis by (simp add: fillblock_def Let_def)
qed

lemma fillblock_full:
  assumes "length b = 16" "n \<le> 16" "16 \<le> n + length inp" "d = take n b @ inp"
  shows "fillblock b n 16 inp = (take 16 d, 16, drop 16 d, (length (drop 16 d) div 16) * 16)"
  using assms by (auto simp add: fillblock_def memcpy_at_def Let_def min_def)

lemma trailingdata_fits:
  assumes "length rest \<le> 16"
  shows "trailingdata b 0 16 rest = Some (memcpy_at b 0 rest, length rest, [])"
  using assms by (simp add: trailingdata_def memcpy_at_Nil)

lemma aes_update_held_flush:
  assumes "bufsz c = 16" "enc c \<or> inp \<noteq> [] \<or> \<not> pad c"
  shows "aes_update_held ciph c inp =
     (case cipher ciph c (take 16 (buf c)) of
              (s, None) \<Rightarrow> Inl (c\<lparr>ks := s\<rparr>)
            | (s, Some ob) \<Rightarrow> Inr (c\<lparr>ks := s, bufsz := 0\<rparr>, ob, 16))"
  using assms by (auto simp add: aes_update_held_def AES_BLOCK_SIZE_def)

lemma aes_update_held_keep:
  assumes "bufsz c \<noteq> 16 \<or> (\<not> enc c \<and> inp = [] \<and> pad c)"
  shows "aes_update_held ciph c inp = Inr (c, [], 0)"
  using assms by (auto simp add: aes_update_held_def AES_BLOCK_SIZE_def)

lemma aes_update_bulk_none:
  shows "aes_update_bulk ciph c inp 0 = Inr (c, inp, [], 0)"
  by (simp add: aes_update_bulk_def)

lemma aes_update_bulk_blocks:
  assumes "16 \<le> length inp"
  shows "aes_update_bulk ciph c inp ((length inp div 16) * 16) =
     (case cipher ciph c (take (length inp - held_len c (length inp + 16)) inp) of
        (s, None) \<Rightarrow> Inl (c\<lparr>ks := s\<rparr>)
      | (s, Some ob) \<Rightarrow>
          Inr (c\<lparr>ks := s\<rparr>, drop (length inp - held_len c (length inp + 16)) inp, ob,
               length inp - held_len c (length inp + 16)))"
proof -
  have pos: "0 < (length inp div 16) * 16"
    using assms by (simp add: div_greater_zero_iff)
  show ?thesis
    unfolding aes_update_bulk_def AES_BLOCK_SIZE_def bulk_count[OF assms] using pos by simp
qed

lemma aes_update_short:
  assumes "ctx_ok ctx" "bufsz ctx + length inp < 16"
  shows "aes_update ciph ctx inp =
           Inr (ctx\<lparr>buf := memcpy_at (buf ctx) (bufsz ctx) inp, bufsz := bufsz ctx + length inp\<rparr>, [], 0)"
proof -
  have fb: "fillblock (buf ctx) (bufsz ctx) 16 inp =
      (memcpy_at (buf ctx) (bufsz ctx) inp, bufsz ctx + length inp, [], 0)"
    using assms by (intro fillblock_short) (simp_all add: ctx_ok_def AES_BLOCK_SIZE_def)
  show ?thesis
    unfolding aes_update_def AES_BLOCK_SIZE_def fb using assms(2)
    by (simp add: aes_update_held_keep aes_update_bulk_none trailingdata_def)
qed

lemma aes_update_full:
  assumes "ctx_ok ctx" "16 \<le> bufsz ctx + length inp" "d = pending ctx @ inp"
  shows "aes_update ciph ctx inp =
     (case aes_update_held ciph (ctx\<lparr>buf := take 16 d, bufsz := 16\<rparr>) (drop 16 d) of
             Inl e \<Rightarrow> Inl e
           | Inr (ctx2, out2, outlint2) \<Rightarrow>
               (case aes_update_bulk ciph ctx2 (drop 16 d) ((length (drop 16 d) div 16) * 16) of
                  Inl e \<Rightarrow> Inl e
                | Inr (ctx3, inp3, out3, outlint3) \<Rightarrow>
                    (case trailingdata (buf ctx3) (bufsz ctx3) 16 inp3 of
                       None \<Rightarrow> Inl ctx3
                     | Some (b4, n4, inp4) \<Rightarrow>
                         if length inp4 = 0
                         then Inr (ctx3\<lparr>buf := b4, bufsz := n4\<rparr>, out2 @ out3,
                                   outlint2 + outlint3)
                         else Inl (ctx3\<lparr>buf := b4, bufsz := n4\<rparr>))))"
proof -
  have fb: "fillblock (buf ctx) (bufsz ctx) 16 inp =
           (take 16 d, 16, drop 16 d, (length (drop 16 d) div 16) * 16)"
    using assms by (intro fillblock_full) (simp_all add: ctx_ok_def pending_def AES_BLOCK_SIZE_def)
  show ?thesis
    unfolding aes_update_def AES_BLOCK_SIZE_def fb by (simp only: prod.case)
qed

lemma aes_update_hold:
  assumes "ctx_ok ctx" "bufsz ctx + length inp = 16" "\<not> enc ctx" "pad ctx"
  shows "aes_update ciph ctx inp =
           Inr (ctx\<lparr>buf := pending ctx @ inp, bufsz := 16\<rparr>, [], 0)"
proof -
  define d where "d = pending ctx @ inp"
  have l: "length d = 16"
    using assms by (simp add: d_def pending_def ctx_ok_def AES_BLOCK_SIZE_def)
  have u: "aes_update ciph ctx inp = Inr (ctx\<lparr>buf := take 16 d, bufsz := 16\<rparr>, [], 0)"
    unfolding aes_update_full[OF assms(1) _ d_def, simplified assms(2), simplified]
    using l assms(3,4)
    by (simp add: aes_update_held_keep aes_update_bulk_none trailingdata_def)
  show ?thesis using u l by (simp add: d_def)
qed

lemma held_len_mid:
  assumes "16 \<le> n" "n < 32" "enc c \<or> \<not> pad c \<or> 16 < n"
  shows "n - held_len c n = 16"
proof -
  have "n mod 16 = n - 16"
    using assms(1,2) by (simp add: mod_if)
  then show ?thesis
    using assms by (auto simp add: held_len_def AES_BLOCK_SIZE_def)
qed

lemma aes_update_flush1:
  assumes "ctx_ok ctx" "16 \<le> bufsz ctx + length inp" "bufsz ctx + length inp < 32"
    "enc ctx \<or> \<not> pad ctx \<or> 16 < bufsz ctx + length inp" "d = pending ctx @ inp"
    "k = length d - held_len ctx (length d)"
  shows "aes_update ciph ctx inp =
     (case cipher ciph (ctx\<lparr>buf := take 16 d, bufsz := 16\<rparr>) (take 16 d) of
        (s, None) \<Rightarrow> Inl (ctx\<lparr>buf := take 16 d, bufsz := 16, ks := s\<rparr>)
      | (s, Some ob) \<Rightarrow>
          Inr (ctx\<lparr>buf := memcpy_at (take 16 d) 0 (drop k d), bufsz := length d - k, ks := s\<rparr>, ob, k))"
proof -
  let ?c1 = "ctx\<lparr>buf := take 16 d, bufsz := 16\<rparr>"
  have l: "length d = bufsz ctx + length inp"
    using assms by (simp add: pending_def ctx_ok_def AES_BLOCK_SIZE_def)
  have k: "k = 16"
    unfolding assms(6) l using assms(2,3,4) by (intro held_len_mid) auto
  have ne: "enc ?c1 \<or> drop 16 d \<noteq> [] \<or> \<not> pad ?c1"
    using assms(4) l by auto
  have h: "aes_update_held ciph ?c1 (drop 16 d) =
     (case cipher ciph ?c1 (take 16 (buf ?c1)) of
              (s, None) \<Rightarrow> Inl (?c1\<lparr>ks := s\<rparr>)
            | (s, Some ob) \<Rightarrow> Inr (?c1\<lparr>ks := s, bufsz := 0\<rparr>, ob, 16))"
    by (rule aes_update_held_flush[OF _ ne]) simp
  have z: "length (drop 16 d) div 16 * 16 = 0"
    using assms l by simp
  have t: "\<And>b. trailingdata b 0 16 (drop 16 d) =
            Some (memcpy_at b 0 (drop 16 d), length d - 16, [])"
    using trailingdata_fits[of "drop 16 d"] assms l by simp
  show ?thesis
    unfolding aes_update_full[OF assms(1,2,5)] h z k
    by (simp add: aes_update_bulk_none t split: prod.splits option.splits)
qed

lemma held_len_le: "held_len c n \<le> 16"
  by (simp add: held_len_def AES_BLOCK_SIZE_def)

lemma held_len_le_n: "held_len c n \<le> n"
  by (auto simp add: held_len_def AES_BLOCK_SIZE_def intro: mod_less_eq_dividend dvd_imp_le)

lemma held_len_cong: "enc c' = enc c \<Longrightarrow> pad c' = pad c \<Longrightarrow> held_len c' n = held_len c n"
  by (simp add: held_len_def)

lemma aes_update_flush2:
  assumes "ctx_ok ctx" "32 \<le> bufsz ctx + length inp" "d = pending ctx @ inp"
    "k = length d - held_len ctx (length d)"
  shows "aes_update ciph ctx inp =
     (case cipher ciph (ctx\<lparr>buf := take 16 d, bufsz := 16\<rparr>) (take 16 d) of
        (s, None) \<Rightarrow> Inl (ctx\<lparr>buf := take 16 d, bufsz := 16, ks := s\<rparr>)
      | (s, Some ob) \<Rightarrow>
          (case cipher ciph (ctx\<lparr>buf := take 16 d, ks := s, bufsz := 0\<rparr>) (take (k - 16) (drop 16 d)) of
             (s', None) \<Rightarrow> Inl (ctx\<lparr>buf := take 16 d, ks := s', bufsz := 0\<rparr>)
           | (s', Some ob') \<Rightarrow>
               Inr (ctx\<lparr>buf := memcpy_at (take 16 d) 0 (drop k d), bufsz := length d - k, ks := s'\<rparr>,
                    ob @ ob', k)))"
proof -
  let ?c1 = "ctx\<lparr>buf := take 16 d, bufsz := 16\<rparr>"
  have l: "length d = bufsz ctx + length inp"
    using assms by (simp add: pending_def ctx_ok_def AES_BLOCK_SIZE_def)
  have n32: "32 \<le> length d" using l assms(2) by simp
  have k16: "16 \<le> k"
    unfolding assms(4) using n32 held_len_le[of ctx "length d"] by linarith
  have kn: "k \<le> length d" unfolding assms(4) by simp
  have nk: "length d - k \<le> 16"
    unfolding assms(4) using held_len_le[of ctx "length d"] held_len_le_n[of ctx "length d"] by linarith
  have ne: "enc ?c1 \<or> drop 16 d \<noteq> [] \<or> \<not> pad ?c1"
    using n32 by auto
  have h: "aes_update_held ciph ?c1 (drop 16 d) =
     (case cipher ciph ?c1 (take 16 (buf ?c1)) of
              (s, None) \<Rightarrow> Inl (?c1\<lparr>ks := s\<rparr>)
            | (s, Some ob) \<Rightarrow> Inr (?c1\<lparr>ks := s, bufsz := 0\<rparr>, ob, 16))"
    by (rule aes_update_held_flush[OF _ ne]) simp
  have len1: "16 \<le> length (drop 16 d)" using n32 by simp
  have nb: "\<And>s. length (drop 16 d) - held_len (?c1\<lparr>ks := s, bufsz := 0\<rparr>) (length (drop 16 d) + 16) = k - 16"
  proof -
    fix s
    have "held_len (?c1\<lparr>ks := s, bufsz := 0\<rparr>) (length (drop 16 d) + 16) = held_len ctx (length d)"
      using n32 by (simp add: held_len_def)
    then show "length (drop 16 d) - held_len (?c1\<lparr>ks := s, bufsz := 0\<rparr>) (length (drop 16 d) + 16) = k - 16"
      unfolding assms(4) by simp
  qed
  have b: "\<And>s. aes_update_bulk ciph (?c1\<lparr>ks := s, bufsz := 0\<rparr>) (drop 16 d) ((length (drop 16 d) div 16) * 16) =
     (case cipher ciph (?c1\<lparr>ks := s, bufsz := 0\<rparr>) (take (k - 16) (drop 16 d)) of
        (s', None) \<Rightarrow> Inl (?c1\<lparr>ks := s', bufsz := 0\<rparr>)
      | (s', Some ob) \<Rightarrow>
          Inr (?c1\<lparr>ks := s', bufsz := 0\<rparr>, drop k d, ob, k - 16))"
  proof -
    fix s
    have dd: "drop (k - 16) (drop 16 d) = drop k d" using k16 by simp
    show "aes_update_bulk ciph (?c1\<lparr>ks := s, bufsz := 0\<rparr>) (drop 16 d) ((length (drop 16 d) div 16) * 16) =
     (case cipher ciph (?c1\<lparr>ks := s, bufsz := 0\<rparr>) (take (k - 16) (drop 16 d)) of
        (s', None) \<Rightarrow> Inl (?c1\<lparr>ks := s', bufsz := 0\<rparr>)
      | (s', Some ob) \<Rightarrow>
          Inr (?c1\<lparr>ks := s', bufsz := 0\<rparr>, drop k d, ob, k - 16))"
      unfolding aes_update_bulk_blocks[OF len1] nb dd
      by (simp split: prod.splits option.splits)
  qed
  have t: "\<And>b. trailingdata b 0 16 (drop k d) =
            Some (memcpy_at b 0 (drop k d), length d - k, [])"
    using trailingdata_fits[of "drop k d"] nk by simp
  have ge16: "16 \<le> bufsz ctx + length inp" using assms(2) by simp
  have h': "aes_update_held ciph ?c1 (drop 16 d) =
     (case cipher ciph ?c1 (take 16 d) of
              (s, None) \<Rightarrow> Inl (?c1\<lparr>ks := s\<rparr>)
            | (s, Some ob) \<Rightarrow> Inr (?c1\<lparr>ks := s, bufsz := 0\<rparr>, ob, 16))"
    using h by simp
  obtain s r where c1: "cipher ciph ?c1 (take 16 d) = (s, r)"
    by (cases "cipher ciph ?c1 (take 16 d)")
  show ?thesis
  proof (cases r)
    case None
    show ?thesis
      unfolding aes_update_full[OF assms(1) ge16 assms(3)] h' c1 None by simp
  next
    case (Some ob)
    obtain s' r' where c2: "cipher ciph (?c1\<lparr>ks := s, bufsz := 0\<rparr>) (take (k - 16) (drop 16 d)) = (s', r')"
      by (cases "cipher ciph (?c1\<lparr>ks := s, bufsz := 0\<rparr>) (take (k - 16) (drop 16 d))")
    have c2': "cipher ciph (ctx\<lparr>buf := take 16 d, ks := s, bufsz := 0\<rparr>) (take (k - 16) (drop 16 d)) = (s', r')"
      using c2 by simp
    have step: "aes_update ciph ctx inp =
        (case r' of None \<Rightarrow> Inl (?c1\<lparr>ks := s', bufsz := 0\<rparr>)
         | Some ob' \<Rightarrow> Inr (?c1\<lparr>ks := s', bufsz := 0, buf := memcpy_at (take 16 d) 0 (drop k d),
             bufsz := length d - k\<rparr>, ob @ ob', 16 + (k - 16)))"
      unfolding aes_update_full[OF assms(1) ge16 assms(3)] h' c1 Some option.case prod.case sum.case b c2
      by (cases r') (simp_all add: t)
    show ?thesis
      unfolding step c1 Some c2' option.case prod.case using k16
      by (cases r') simp_all
  qed
qed

lemma length_pending: "ctx_ok ctx \<Longrightarrow> length (pending ctx) = bufsz ctx"
  by (simp add: ctx_ok_def pending_def AES_BLOCK_SIZE_def)

lemma held_len_small: "n < 16 \<Longrightarrow> held_len c n = n"
  by (auto simp add: held_len_def AES_BLOCK_SIZE_def)

lemma held_len_16: "\<not> enc c \<Longrightarrow> pad c \<Longrightarrow> held_len c 16 = 16"
  by (simp add: held_len_def AES_BLOCK_SIZE_def)

lemma pending_after:
  assumes "k \<le> length d" "length d - k \<le> 16" "16 \<le> length d"
  shows "take (length d - k) (memcpy_at (take 16 d) 0 (drop k d)) = drop k d"
    and "length (memcpy_at (take 16 d) 0 (drop k d)) = 16"
  using assms by (simp_all add: memcpy_at_def)

lemma aes_update_Inr:
  assumes ok: "ctx_ok ctx" and r: "aes_update ciph ctx inp = Inr (ctx', out, outl)"
    and d: "d = pending ctx @ inp"
  shows "outl = length d - held_len ctx (length d) \<and> bufsz ctx' = held_len ctx (length d) \<and>
         pending ctx' = drop outl d \<and> ctx_ok ctx' \<and> enc ctx' = enc ctx \<and> pad ctx' = pad ctx \<and>
         mode ctx' = mode ctx \<and> keylen ctx' = keylen ctx \<and> iv ctx' = iv ctx"
proof -
  have l: "length d = bufsz ctx + length inp"
    using ok d by (simp add: length_pending)
  have bl: "length (buf ctx) = 16" "bufsz ctx \<le> 16"
    using ok by (simp_all add: ctx_ok_def AES_BLOCK_SIZE_def)
  define k where "k = length d - held_len ctx (length d)"
  have kn: "k \<le> length d" by (simp add: k_def)
  have nk: "length d - k = held_len ctx (length d)"
    unfolding k_def using held_len_le_n[of ctx "length d"] by simp
  have nk16: "length d - k \<le> 16"
    unfolding nk by (rule held_len_le)
  consider (short) "length d < 16"
    | (hold) "length d = 16" "\<not> enc ctx" "pad ctx"
    | (flush1) "16 \<le> length d" "length d < 32" "enc ctx \<or> \<not> pad ctx \<or> 16 < length d"
    | (flush2) "32 \<le> length d"
    by linarith
  then show ?thesis
  proof cases
    case short
    have "aes_update ciph ctx inp =
           Inr (ctx\<lparr>buf := memcpy_at (buf ctx) (bufsz ctx) inp, bufsz := bufsz ctx + length inp\<rparr>, [], 0)"
      using short l by (intro aes_update_short[OF ok]) simp
    with r have e: "ctx' = ctx\<lparr>buf := memcpy_at (buf ctx) (bufsz ctx) inp, bufsz := bufsz ctx + length inp\<rparr>"
      "outl = 0" by simp_all
    show ?thesis
      using short l bl unfolding e d
      by (simp add: held_len_small pending_def ctx_ok_def AES_BLOCK_SIZE_def memcpy_at_def)
  next
    case hold
    have "aes_update ciph ctx inp = Inr (ctx\<lparr>buf := pending ctx @ inp, bufsz := 16\<rparr>, [], 0)"
      using hold l by (intro aes_update_hold[OF ok]) simp_all
    with r have e: "ctx' = ctx\<lparr>buf := d, bufsz := 16\<rparr>" "outl = 0"
      by (simp_all add: d)
    show ?thesis
      using hold unfolding e
      by (simp add: held_len_16 pending_def ctx_ok_def AES_BLOCK_SIZE_def)
  next
    case flush1
    note u = aes_update_flush1[OF ok flush1(1,2,3)[unfolded l] d k_def, of ciph]
    obtain s r1 where c: "cipher ciph (ctx\<lparr>buf := take 16 d, bufsz := 16\<rparr>) (take 16 d) = (s, r1)"
      by (cases "cipher ciph (ctx\<lparr>buf := take 16 d, bufsz := 16\<rparr>) (take 16 d)")
    have e: "ctx' = ctx\<lparr>buf := memcpy_at (take 16 d) 0 (drop k d), bufsz := length d - k, ks := s\<rparr> \<and>
         outl = k"
      using r unfolding u c by (cases r1) auto
    show ?thesis
      using e pending_after[OF kn nk16 flush1(1)] nk nk16
      by (simp add: k_def pending_def ctx_ok_def AES_BLOCK_SIZE_def)
  next
    case flush2
    note u = aes_update_flush2[OF ok flush2[unfolded l] d k_def, of ciph]
    have g16: "16 \<le> length d" using flush2 by simp
    obtain s r1 where c: "cipher ciph (ctx\<lparr>buf := take 16 d, bufsz := 16\<rparr>) (take 16 d) = (s, r1)"
      by (cases "cipher ciph (ctx\<lparr>buf := take 16 d, bufsz := 16\<rparr>) (take 16 d)")
    obtain s' r2 where c2: "cipher ciph (ctx\<lparr>buf := take 16 d, ks := s, bufsz := 0\<rparr>) (take (k - 16) (drop 16 d)) = (s', r2)"
      by (cases "cipher ciph (ctx\<lparr>buf := take 16 d, ks := s, bufsz := 0\<rparr>) (take (k - 16) (drop 16 d))")
    have e: "ctx' = ctx\<lparr>buf := memcpy_at (take 16 d) 0 (drop k d), bufsz := length d - k, ks := s'\<rparr> \<and>
         outl = k"
      using r unfolding u c by (cases r1; cases r2) (auto simp add: c2)
    show ?thesis
      using e pending_after[OF kn nk16 g16] nk nk16
      by (simp add: k_def pending_def ctx_ok_def AES_BLOCK_SIZE_def)
  qed
qed

section \<open>The pending buffer never outgrows one block\<close>

lemma fillblock_bufsz:
  assumes "n \<le> 16" "fillblock b n 16 inp = (b1, n1, inp1, nb)"
  shows "n1 \<le> 16"
  using assms by (auto simp add: fillblock_def Let_def min_def)

lemma aes_update_held_bufsz:
  assumes "bufsz c \<le> 16"
  shows "case aes_update_held ciph c inp of Inl e \<Rightarrow> bufsz e \<le> 16 | Inr (c', _, _) \<Rightarrow> bufsz c' \<le> 16"
  using assms by (auto simp add: aes_update_held_def split: prod.splits option.splits)

lemma aes_update_bulk_bufsz:
  assumes "bufsz c \<le> 16"
  shows "case aes_update_bulk ciph c inp nb of Inl e \<Rightarrow> bufsz e \<le> 16 | Inr (c', _, _, _) \<Rightarrow> bufsz c' \<le> 16"
  using assms by (auto simp add: aes_update_bulk_def split: prod.splits option.splits)

lemma trailingdata_bufsz:
  assumes "n \<le> 16" "trailingdata b n 16 inp = Some (b', n', inp')"
  shows "n' \<le> 16"
  using assms by (auto simp add: trailingdata_def split: if_splits)

lemma aes_update_bufsz:
  assumes "bufsz c \<le> 16"
  shows "case aes_update ciph c inp of Inl e \<Rightarrow> bufsz e \<le> 16 | Inr (c', _, _) \<Rightarrow> bufsz c' \<le> 16"
proof -
  obtain b1 n1 inp1 nb where fb: "fillblock (buf c) (bufsz c) 16 inp = (b1, n1, inp1, nb)"
    by (cases "fillblock (buf c) (bufsz c) 16 inp") auto
  have n1: "n1 \<le> 16" using fillblock_bufsz[OF assms fb] .
  let ?c1 = "c\<lparr>buf := b1, bufsz := n1\<rparr>"
  have c1: "bufsz ?c1 \<le> 16" using n1 by simp
  show ?thesis
  proof (cases "aes_update_held ciph ?c1 inp1")
    case (Inl e)
    then show ?thesis
      using aes_update_held_bufsz[OF c1, of ciph inp1]
      by (simp add: aes_update_def AES_BLOCK_SIZE_def fb)
  next
    case (Inr t)
    obtain c2 o2 l2 where t: "t = (c2, o2, l2)" by (cases t) auto
    have c2: "bufsz c2 \<le> 16"
      using aes_update_held_bufsz[OF c1, of ciph inp1] Inr t by simp
    show ?thesis
    proof (cases "aes_update_bulk ciph c2 inp1 nb")
      case (Inl e)
      then show ?thesis
        using aes_update_bulk_bufsz[OF c2, of ciph inp1 nb] Inr t
        by (simp add: aes_update_def AES_BLOCK_SIZE_def fb)
    next
      case (Inr u)
      obtain c3 inp3 o3 l3 where u: "u = (c3, inp3, o3, l3)" by (cases u) auto
      have c3: "bufsz c3 \<le> 16"
        using aes_update_bulk_bufsz[OF c2, of ciph inp1 nb] Inr u by simp
      show ?thesis
      proof (cases "trailingdata (buf c3) (bufsz c3) 16 inp3")
        case None
        then show ?thesis
          using c3 Inr u \<open>aes_update_held ciph ?c1 inp1 = Inr t\<close> t
          by (simp add: aes_update_def AES_BLOCK_SIZE_def fb)
      next
        case (Some v)
        obtain b4 n4 inp4 where v: "v = (b4, n4, inp4)" by (cases v) auto
        have "n4 \<le> 16" using trailingdata_bufsz[OF c3] Some v by simp
        then show ?thesis
          using Some v Inr u \<open>aes_update_held ciph ?c1 inp1 = Inr t\<close> t
          by (simp add: aes_update_def AES_BLOCK_SIZE_def fb)
      qed
    qed
  qed
qed

lemma unpadblock_le: "unpadblock b n 16 = Some m \<Longrightarrow> m \<le> 16"
  by (auto simp add: unpadblock_def Let_def split: if_splits)

lemma aes_final_bufsz:
  assumes "bufsz c \<le> 16"
  shows "case aes_final ciph c of Inl e \<Rightarrow> bufsz e \<le> 16 | Inr (c', _, _) \<Rightarrow> bufsz c' \<le> 16"
  using assms
  by (auto simp add: aes_final_def aes_final_enc_def Let_def AES_BLOCK_SIZE_def
      split: prod.splits option.splits if_splits)

lemma init_bufsz:
  "bufsz (snd (aes_einit ciph c k v)) = bufsz c" "bufsz (snd (aes_dinit ciph c k v)) = bufsz c"
  by (auto simp add: aes_einit_def aes_dinit_def PROV_AES_KEY_generic_init_def Let_def
      split: option.splits prod.splits)

lemma set_params_bufsz: "bufsz (snd (aes_set_params api c ps)) = bufsz c"
  by (auto simp add: aes_set_params_def split: option.splits)

lemma ctx_after_bufsz:
  assumes "bufsz c \<le> 16"
  shows "bufsz (ctx_after ciph api op c) \<le> 16"
proof (cases op)
  case (Update x)
  then show ?thesis
    using aes_update_bufsz[OF assms, of ciph x] by (auto split: sum.splits)
next
  case Final
  then show ?thesis
    using aes_final_bufsz[OF assms, of ciph] by (auto split: sum.splits)
qed (use assms in \<open>simp_all add: init_bufsz set_params_bufsz\<close>)

lemma reachable_bufsz:
  assumes "reachable ciph api z c"
  shows "bufsz c \<le> 16"
  using assms
proof (induction rule: reachable.induct)
  case (call c op)
  then show ?case
    using ctx_after_bufsz[of c ciph api op] by simp
qed (simp_all add: aes_256_ecb_newctx_def aes_192_ecb_newctx_def aes_128_ecb_newctx_def)

text \<open>
  C7.  In every context that any sequence of \<^verbatim>\<open>init\<close>, \<^verbatim>\<open>update\<close>, \<^verbatim>\<open>final\<close> and
  \<^verbatim>\<open>set_params\<close> calls, with any arguments and whatever their status, produces from a
  fresh context, the fill count of the pending buffer is at most one block, and so
  is the number of pending bytes.
\<close>

theorem pending_never_exceeds_block:
  assumes "reachable ciph api z c"
  shows "bufsz c \<le> AES_BLOCK_SIZE \<and> length (pending c) \<le> AES_BLOCK_SIZE"
  using reachable_bufsz[OF assms] by (simp add: AES_BLOCK_SIZE_def pending_def)

theorem pending_never_exceeds_block_witness:
  "reachable shift_ciph kv_api (0, False)
     (ctx_after shift_ciph kv_api (Update [72, 69, 76, 76, 79])
       (ctx_after shift_ciph kv_api (Einit (Some (replicate 16 3)) None)
         (aes_128_ecb_newctx (0, False)))) \<and>
   bufsz (ctx_after shift_ciph kv_api (Update [72, 69, 76, 76, 79])
       (ctx_after shift_ciph kv_api (Einit (Some (replicate 16 3)) None)
         (aes_128_ecb_newctx (0, False)))) = 5 \<and>
   bufsz (ctx_after shift_ciph kv_api (Update [72, 69, 76, 76, 79])
       (ctx_after shift_ciph kv_api (Einit (Some (replicate 16 3)) None)
         (aes_128_ecb_newctx (0, False)))) \<le> AES_BLOCK_SIZE"
proof -
  let ?c = "ctx_after shift_ciph kv_api (Update [72, 69, 76, 76, 79])
       (ctx_after shift_ciph kv_api (Einit (Some (replicate 16 3)) None)
         (aes_128_ecb_newctx (0, False)))"
  have r: "reachable shift_ciph kv_api (0, False) ?c"
    by (intro reachable.call reachable.new128)
  have five: "bufsz ?c = 5" by code_simp
  show ?thesis
    using r five pending_never_exceeds_block[OF r] by simp
qed

section \<open>Final\<close>

lemma padblock_eq:
  assumes "length b = 16" "n \<le> 16"
  shows "padblock b n 16 = take n b @ replicate (16 - n) (of_nat (16 - n))"
  using assms by (simp add: padblock_def memcpy_at_def)

lemma aes_final_enc_padded:
  assumes "enc ctx" "ctx_ok ctx" "pad ctx"
    and blk: "blk = pending ctx @ replicate (16 - bufsz ctx) (of_nat (16 - bufsz ctx))"
  shows "aes_final ciph ctx =
          (case cipher ciph (ctx\<lparr>buf := blk\<rparr>) blk of
             (s, None) \<Rightarrow> Inl (ctx\<lparr>buf := blk, ks := s\<rparr>)
           | (s, Some ob) \<Rightarrow> Inr (ctx\<lparr>buf := blk, ks := s, bufsz := 0\<rparr>, ob, 16))"
proof -
  have bl: "length (buf ctx) = 16" "bufsz ctx \<le> 16"
    using assms(2) by (simp_all add: ctx_ok_def AES_BLOCK_SIZE_def)
  have pb: "padblock (buf ctx) (bufsz ctx) 16 = blk"
    using padblock_eq[OF bl] by (simp add: pending_def blk)
  have len: "length blk = 16"
    using bl by (simp add: pending_def blk)
  show ?thesis
    using assms(1,3) len unfolding aes_final_def aes_final_enc_def AES_BLOCK_SIZE_def pb
    by simp
qed

text \<open>
  C4.  \<^verbatim>\<open>final\<close> on an encrypting context, case by case.  With padding enabled the
  pending bytes are padded to exactly one block, each pad byte carrying the pad
  length, that block goes through the transform, and one block is reported (or the
  call fails when the transform does).  With padding disabled: nothing pending gives
  zero bytes and success; a partial block fails and leaves the context as it is;
  exactly one block is transformed and reported.  Every success leaves the fill count
  at zero.
\<close>

theorem aes_final_encrypt_cases:
  assumes "enc ctx" and "ctx_ok ctx"
  shows
    "(pad ctx \<longrightarrow>
        length (pending ctx @ replicate (AES_BLOCK_SIZE - bufsz ctx) (of_nat (AES_BLOCK_SIZE - bufsz ctx)))
          = AES_BLOCK_SIZE \<and>
        aes_final ciph ctx =
          (case cipher ciph
                  (ctx\<lparr>buf := pending ctx @
                      replicate (AES_BLOCK_SIZE - bufsz ctx) (of_nat (AES_BLOCK_SIZE - bufsz ctx))\<rparr>)
                  (pending ctx @
                      replicate (AES_BLOCK_SIZE - bufsz ctx) (of_nat (AES_BLOCK_SIZE - bufsz ctx))) of
             (s, None) \<Rightarrow>
               Inl (ctx\<lparr>buf := pending ctx @
                      replicate (AES_BLOCK_SIZE - bufsz ctx) (of_nat (AES_BLOCK_SIZE - bufsz ctx)),
                    ks := s\<rparr>)
           | (s, Some ob) \<Rightarrow>
               Inr (ctx\<lparr>buf := pending ctx @
                      replicate (AES_BLOCK_SIZE - bufsz ctx) (of_nat (AES_BLOCK_SIZE - bufsz ctx)),
                    ks := s, bufsz := 0\<rparr>, ob, AES_BLOCK_SIZE))) \<and>
     (\<not> pad ctx \<and> bufsz ctx = 0 \<longrightarrow> aes_final ciph ctx = Inr (ctx, [], 0)) \<and>
     (\<not> pad ctx \<and> 0 < bufsz ctx \<and> bufsz ctx < AES_BLOCK_SIZE \<longrightarrow> aes_final ciph ctx = Inl ctx) \<and>
     (\<not> pad ctx \<and> bufsz ctx = AES_BLOCK_SIZE \<longrightarrow>
        aes_final ciph ctx =
          (case cipher ciph ctx (pending ctx) of
             (s, None) \<Rightarrow> Inl (ctx\<lparr>ks := s\<rparr>)
           | (s, Some ob) \<Rightarrow> Inr (ctx\<lparr>ks := s, bufsz := 0\<rparr>, ob, AES_BLOCK_SIZE))) \<and>
     (\<forall>c' out outl. aes_final ciph ctx = Inr (c', out, outl) \<longrightarrow> bufsz c' = 0)"
proof -
  have bl: "length (buf ctx) = 16" "bufsz ctx \<le> 16"
    using assms(2) by (simp_all add: ctx_ok_def AES_BLOCK_SIZE_def)
  define blk :: "byte list" where
    "blk = pending ctx @ replicate (16 - bufsz ctx) (of_nat (16 - bufsz ctx))"
  have pb: "padblock (buf ctx) (bufsz ctx) 16 = blk"
    using padblock_eq[OF bl] by (simp add: pending_def blk_def)
  have len: "length blk = 16"
    using bl by (simp add: pending_def blk_def)
  have A: "pad ctx \<Longrightarrow> aes_final ciph ctx =
          (case cipher ciph (ctx\<lparr>buf := blk\<rparr>) blk of
             (s, None) \<Rightarrow> Inl (ctx\<lparr>buf := blk, ks := s\<rparr>)
           | (s, Some ob) \<Rightarrow> Inr (ctx\<lparr>buf := blk, ks := s, bufsz := 0\<rparr>, ob, 16))"
    using assms(1) len unfolding aes_final_def aes_final_enc_def AES_BLOCK_SIZE_def pb
    by simp
  have B: "\<not> pad ctx \<and> bufsz ctx = 0 \<longrightarrow> aes_final ciph ctx = Inr (ctx, [], 0)"
    using assms(1) by (simp add: aes_final_def)
  have C: "\<not> pad ctx \<and> 0 < bufsz ctx \<and> bufsz ctx < 16 \<longrightarrow> aes_final ciph ctx = Inl ctx"
    using assms(1) by (simp add: aes_final_def AES_BLOCK_SIZE_def)
  have D: "\<not> pad ctx \<and> bufsz ctx = 16 \<longrightarrow>
        aes_final ciph ctx =
          (case cipher ciph ctx (pending ctx) of
             (s, None) \<Rightarrow> Inl (ctx\<lparr>ks := s\<rparr>)
           | (s, Some ob) \<Rightarrow> Inr (ctx\<lparr>ks := s, bufsz := 0\<rparr>, ob, 16))"
    using assms(1) unfolding aes_final_def aes_final_enc_def AES_BLOCK_SIZE_def pending_def by simp
  have E: "\<forall>c' out outl. aes_final ciph ctx = Inr (c', out, outl) \<longrightarrow> bufsz c' = 0"
    using assms(1) unfolding aes_final_def aes_final_enc_def
    by (auto split: if_splits prod.splits option.splits)
  show ?thesis
    unfolding AES_BLOCK_SIZE_def using len A B C D E unfolding blk_def by blast
qed

theorem aes_final_encrypt_cases_witness:
  "enc (demo_ctx True True [72, 69, 76, 76, 79]) \<and> ctx_ok (demo_ctx True True [72, 69, 76, 76, 79]) \<and>
   (\<exists>c'. aes_final shift_ciph (demo_ctx True True [72, 69, 76, 76, 79]) =
          Inr (c', [75, 72, 79, 79, 82, 14, 14, 14, 14, 14, 14, 14, 14, 14, 14, 14], 16) \<and>
        bufsz c' = 0)"
proof -
  let ?c = "demo_ctx True True [72, 69, 76, 76, 79]"
  have e: "enc ?c" by code_simp
  have ok: "ctx_ok ?c" by code_simp
  have v: "map_sum (\<lambda>_. ()) (\<lambda>(c', out, n). (out, n)) (aes_final shift_ciph ?c) =
      Inr ([75, 72, 79, 79, 82, 14, 14, 14, 14, 14, 14, 14, 14, 14, 14, 14], 16)"
    by code_simp
  then obtain c' where r: "aes_final shift_ciph ?c =
      Inr (c', [75, 72, 79, 79, 82, 14, 14, 14, 14, 14, 14, 14, 14, 14, 14, 14], 16)"
    by (cases "aes_final shift_ciph ?c") auto
  have "bufsz c' = 0"
    using aes_final_encrypt_cases[OF e ok, of shift_ciph] r by blast
  then show ?thesis using e ok r by blast
qed

subsection \<open>Decrypting\<close>

lemma unpadblock_eq:
  assumes "length ob = 16"
  shows "unpadblock ob n 16 =
     (if 1 \<le> unat (last ob) \<and> unat (last ob) \<le> 16 \<and>
         (\<forall>x \<in> set (drop (16 - unat (last ob)) ob). unat x = unat (last ob))
      then Some (16 - unat (last ob)) else None)"
proof -
  have ne: "ob \<noteq> []" using assms by auto
  have l: "ob ! (16 - 1) = last ob"
    using assms ne by (simp add: last_conv_nth)
  have t: "take 16 ob = ob" using assms by simp
  define p where "p = unat (last ob)"
  have "(if p = 0 \<or> p > 16 then None
      else if list_all (\<lambda>x. unat x = p) (drop (16 - p) ob) then Some (16 - p) else None) =
     (if 1 \<le> p \<and> p \<le> 16 \<and> (\<forall>x \<in> set (drop (16 - p) ob). unat x = p)
      then Some (16 - p) else None)"
    by (cases "p = 0"; cases "p > 16") (simp_all add: list_all_iff)
  then show ?thesis
    unfolding unpadblock_def Let_def l t p_def .
qed


text \<open>
  C3.  \<^verbatim>\<open>final\<close> on a decrypting context.  With a fill count other than one block it
  succeeds only when padding is disabled and nothing is pending, and then reports
  zero bytes; every other fill count fails.  With exactly one block pending the block
  goes through the transform (whose failure fails the call); with padding disabled the
  whole block is reported; with padding enabled the last byte \<open>p\<close> of the result must be
  in \<open>[1, block size]\<close> and the last \<open>p\<close> bytes must all equal \<open>p\<close>, else the call fails,
  and the block without its last \<open>p\<close> bytes is reported, block size minus \<open>p\<close> bytes.
  Every success leaves the fill count at zero.
\<close>

theorem aes_final_decrypt_cases:
  assumes "\<not> enc ctx" and "ctx_ok ctx"
  shows
    "(bufsz ctx \<noteq> AES_BLOCK_SIZE \<longrightarrow>
        aes_final ciph ctx = (if bufsz ctx = 0 \<and> \<not> pad ctx then Inr (ctx, [], 0) else Inl ctx)) \<and>
     (bufsz ctx = AES_BLOCK_SIZE \<and> cipher ciph ctx (pending ctx) = (s, None) \<longrightarrow>
        aes_final ciph ctx = Inl (ctx\<lparr>ks := s\<rparr>)) \<and>
     (bufsz ctx = AES_BLOCK_SIZE \<and> cipher ciph ctx (pending ctx) = (s, Some ob) \<and>
      length ob = AES_BLOCK_SIZE \<longrightarrow>
        aes_final ciph ctx =
          (if \<not> pad ctx then Inr (ctx\<lparr>ks := s, buf := ob, bufsz := 0\<rparr>, ob, AES_BLOCK_SIZE)
           else if 1 \<le> unat (last ob) \<and> unat (last ob) \<le> AES_BLOCK_SIZE \<and>
                   (\<forall>x \<in> set (drop (AES_BLOCK_SIZE - unat (last ob)) ob). unat x = unat (last ob))
           then Inr (ctx\<lparr>ks := s, buf := ob, bufsz := 0\<rparr>,
                     take (AES_BLOCK_SIZE - unat (last ob)) ob, AES_BLOCK_SIZE - unat (last ob))
           else Inl (ctx\<lparr>ks := s, buf := ob\<rparr>))) \<and>
     (\<forall>c' out outl. aes_final ciph ctx = Inr (c', out, outl) \<longrightarrow> bufsz c' = 0)"
proof -
  have bl: "length (buf ctx) = 16" "bufsz ctx \<le> 16"
    using assms(2) by (simp_all add: ctx_ok_def AES_BLOCK_SIZE_def)
  have A: "bufsz ctx \<noteq> 16 \<longrightarrow>
        aes_final ciph ctx = (if bufsz ctx = 0 \<and> \<not> pad ctx then Inr (ctx, [], 0) else Inl ctx)"
    using assms(1) by (simp add: aes_final_def AES_BLOCK_SIZE_def)
  have p16: "bufsz ctx = 16 \<Longrightarrow> take 16 (buf ctx) = pending ctx"
    by (simp add: pending_def)
  have B: "bufsz ctx = 16 \<and> cipher ciph ctx (pending ctx) = (s, None) \<longrightarrow>
        aes_final ciph ctx = Inl (ctx\<lparr>ks := s\<rparr>)"
    using assms(1) unfolding aes_final_def AES_BLOCK_SIZE_def by (simp add: p16)
  have C: "bufsz ctx = 16 \<and> cipher ciph ctx (pending ctx) = (s, Some ob) \<and> length ob = 16 \<longrightarrow>
        aes_final ciph ctx =
          (if \<not> pad ctx then Inr (ctx\<lparr>ks := s, buf := ob, bufsz := 0\<rparr>, ob, 16)
           else if 1 \<le> unat (last ob) \<and> unat (last ob) \<le> 16 \<and>
                   (\<forall>x \<in> set (drop (16 - unat (last ob)) ob). unat x = unat (last ob))
           then Inr (ctx\<lparr>ks := s, buf := ob, bufsz := 0\<rparr>,
                     take (16 - unat (last ob)) ob, 16 - unat (last ob))
           else Inl (ctx\<lparr>ks := s, buf := ob\<rparr>))"
  proof (intro impI, elim conjE)
    assume h: "bufsz ctx = 16" "cipher ciph ctx (pending ctx) = (s, Some ob)" "length ob = 16"
    have m: "memcpy_at (buf ctx) 0 ob = ob"
      using bl h(3) by (simp add: memcpy_at_def)
    have c: "cipher ciph ctx (take 16 (buf ctx)) = (s, Some ob)"
      using h(1,2) by (simp add: p16)
    define good where "good = (1 \<le> unat (last ob) \<and> unat (last ob) \<le> 16 \<and>
                   (\<forall>x \<in> set (drop (16 - unat (last ob)) ob). unat x = unat (last ob)))"
    have u: "unpadblock ob 16 16 = (if good then Some (16 - unat (last ob)) else None)"
      unfolding good_def by (rule unpadblock_eq[OF h(3)])
    have f: "aes_final ciph ctx =
       (case (if pad ctx then unpadblock ob 16 16 else Some 16) of
                None \<Rightarrow> Inl (ctx\<lparr>ks := s, buf := ob\<rparr>)
              | Some n \<Rightarrow> Inr (ctx\<lparr>ks := s, buf := ob, bufsz := 0\<rparr>, take n ob, n))"
      using assms(1) h(1) unfolding aes_final_def AES_BLOCK_SIZE_def c Let_def
      by (simp add: m split: option.splits)
    show "aes_final ciph ctx =
          (if \<not> pad ctx then Inr (ctx\<lparr>ks := s, buf := ob, bufsz := 0\<rparr>, ob, 16)
           else if 1 \<le> unat (last ob) \<and> unat (last ob) \<le> 16 \<and>
                   (\<forall>x \<in> set (drop (16 - unat (last ob)) ob). unat x = unat (last ob))
           then Inr (ctx\<lparr>ks := s, buf := ob, bufsz := 0\<rparr>,
                     take (16 - unat (last ob)) ob, 16 - unat (last ob))
           else Inl (ctx\<lparr>ks := s, buf := ob\<rparr>))"
      unfolding f u good_def[symmetric] using h(3) by (cases "pad ctx"; cases good) simp_all
  qed
  have E: "\<forall>c' out outl. aes_final ciph ctx = Inr (c', out, outl) \<longrightarrow> bufsz c' = 0"
    using assms(1) unfolding aes_final_def Let_def
    by (auto split: if_splits prod.splits option.splits)
  show ?thesis
    unfolding AES_BLOCK_SIZE_def by (intro conjI A B C E)
qed

theorem aes_final_decrypt_cases_witness:
  "\<not> enc (demo_ctx False True [75, 72, 79, 79, 82, 14, 14, 14, 14, 14, 14, 14, 14, 14, 14, 14]) \<and>
   ctx_ok (demo_ctx False True [75, 72, 79, 79, 82, 14, 14, 14, 14, 14, 14, 14, 14, 14, 14, 14]) \<and>
   (\<exists>c'. aes_final shift_ciph
          (demo_ctx False True [75, 72, 79, 79, 82, 14, 14, 14, 14, 14, 14, 14, 14, 14, 14, 14]) =
          Inr (c', [72, 69, 76, 76, 79], 5) \<and>
        bufsz c' = 0)"
proof -
  let ?c = "demo_ctx False True [75, 72, 79, 79, 82, 14, 14, 14, 14, 14, 14, 14, 14, 14, 14, 14]"
  have e: "\<not> enc ?c" by code_simp
  have ok: "ctx_ok ?c" by code_simp
  have v: "map_sum (\<lambda>_. ()) (\<lambda>(c', out, n). (out, n)) (aes_final shift_ciph ?c) =
      Inr ([72, 69, 76, 76, 79], 5)"
    by code_simp
  then obtain c' where r: "aes_final shift_ciph ?c = Inr (c', [72, 69, 76, 76, 79], 5)"
    by (cases "aes_final shift_ciph ?c") auto
  have "bufsz c' = 0"
    using aes_final_decrypt_cases[OF e ok, of shift_ciph] r by blast
  then show ?thesis using e ok r by blast
qed

section \<open>Parameters\<close>

text \<open>
  C9.  \<^verbatim>\<open>set_params\<close> fails and leaves the whole context as it is when the padding
  key is present and its element does not convert to an integer; it succeeds and
  leaves the context as it is when the padding key is absent; it sets the flag from
  the integer otherwise.  \<^verbatim>\<open>get_params\<close> writes the current padding flag (1 or 0) into
  the element of the padding key, fails when that write fails, and touches nothing
  when the key is absent.
\<close>

theorem params_accessors:
  shows
    "(OSSL_PARAM_locate api params OSSL_CIPHER_PARAM_PADDING = Some i \<and>
      OSSL_PARAM_get_int api (params ! i) = None \<longrightarrow>
        aes_set_params api ctx params = (False, ctx)) \<and>
     (OSSL_PARAM_locate api params OSSL_CIPHER_PARAM_PADDING = None \<longrightarrow>
        aes_set_params api ctx params = (True, ctx)) \<and>
     (OSSL_PARAM_locate api params OSSL_CIPHER_PARAM_PADDING = Some i \<and>
      OSSL_PARAM_get_int api (params ! i) = Some v \<longrightarrow>
        aes_set_params api ctx params = (True, ctx\<lparr>pad := (v \<noteq> 0)\<rparr>)) \<and>
     (OSSL_PARAM_locate api params OSSL_CIPHER_PARAM_PADDING = Some i \<and>
      OSSL_PARAM_set_uint api (params ! i) (if pad ctx then 1 else 0) = Some p' \<longrightarrow>
        aes_get_params api ctx params = (True, params[i := p'])) \<and>
     (OSSL_PARAM_locate api params OSSL_CIPHER_PARAM_PADDING = Some i \<and>
      OSSL_PARAM_set_uint api (params ! i) (if pad ctx then 1 else 0) = None \<longrightarrow>
        aes_get_params api ctx params = (False, params)) \<and>
     (OSSL_PARAM_locate api params OSSL_CIPHER_PARAM_PADDING = None \<longrightarrow>
        aes_get_params api ctx params = (True, params))"
  by (simp add: aes_set_params_def aes_get_params_def)

theorem params_accessors_witness:
  "aes_set_params kv_api (demo_ctx False True []) [(''keylen'', Some 16), (''padding'', None)] =
     (False, demo_ctx False True []) \<and>
   aes_set_params kv_api (demo_ctx False True []) [(''keylen'', Some 16)] =
     (True, demo_ctx False True []) \<and>
   pad (snd (aes_set_params kv_api (demo_ctx False True []) [(''padding'', Some 0)])) = False \<and>
   aes_get_params kv_api (demo_ctx False True []) [(''keylen'', Some 16), (''padding'', Some 7)] =
     (True, [(''keylen'', Some 16), (''padding'', Some 1)])"
proof -
  let ?c = "demo_ctx False True [] :: (byte \<times> bool) PROV_AES_KEY"
  let ?ps = "[(''keylen'', Some 16), (''padding'', None)] :: (string \<times> int option) list"
  have l1: "OSSL_PARAM_locate kv_api ?ps OSSL_CIPHER_PARAM_PADDING = Some 1 \<and>
      OSSL_PARAM_get_int kv_api (?ps ! 1) = None"
    by code_simp
  have l2: "OSSL_PARAM_locate kv_api [(''keylen'', Some 16)] OSSL_CIPHER_PARAM_PADDING = None"
    by code_simp
  have l3: "OSSL_PARAM_locate kv_api [(''padding'', Some 0)] OSSL_CIPHER_PARAM_PADDING = Some 0 \<and>
      OSSL_PARAM_get_int kv_api ([(''padding'', Some 0)] ! 0) = Some 0"
    by code_simp
  have l4: "OSSL_PARAM_locate kv_api [(''keylen'', Some 16), (''padding'', Some 7)]
        OSSL_CIPHER_PARAM_PADDING = Some 1 \<and>
      OSSL_PARAM_set_uint kv_api ([(''keylen'', Some 16), (''padding'', Some 7)] ! 1)
        (if pad ?c then 1 else 0) = Some (''padding'', Some 1)"
    by code_simp
  have a: "aes_set_params kv_api ?c ?ps = (False, ?c)"
    using params_accessors[of kv_api ?ps 1 ?c] l1 by blast
  have b: "aes_set_params kv_api ?c [(''keylen'', Some 16)] = (True, ?c)"
    using params_accessors[of kv_api "[(''keylen'', Some 16)]" _ ?c] l2 by blast
  have c: "aes_set_params kv_api ?c [(''padding'', Some 0)] = (True, ?c\<lparr>pad := ((0::int) \<noteq> 0)\<rparr>)"
    using params_accessors[of kv_api "[(''padding'', Some 0)]" 0 ?c 0] l3 by blast
  have d: "aes_get_params kv_api ?c [(''keylen'', Some 16), (''padding'', Some 7)] =
     (True, [(''keylen'', Some 16), (''padding'', Some 7)][1 := (''padding'', Some 1)])"
    using params_accessors[of kv_api "[(''keylen'', Some 16), (''padding'', Some 7)]" 1 ?c _
        "(''padding'', Some 1)"] l4 by blast
  show ?thesis
    using a b c d by simp
qed

section \<open>Updates: what is transformed and what stays pending\<close>

lemma held_len_mod: "(n - held_len c n) mod 16 = 0"
proof (cases "\<not> enc c \<and> pad c \<and> 0 < n \<and> n mod 16 = 0")
  case True
  then have "16 dvd n" by (simp add: dvd_eq_mod_eq_0)
  then have "16 dvd n - 16" by (simp add: dvd_diff_nat)
  then show ?thesis using True by (simp add: held_len_def AES_BLOCK_SIZE_def)
next
  case False
  then have "held_len c n = n mod 16" by (auto simp add: held_len_def AES_BLOCK_SIZE_def)
  then show ?thesis by (simp add: minus_mod_eq_mult_div)
qed

lemma aes_update_cases:
  assumes ok: "ctx_ok ctx" and d: "d = pending ctx @ inp"
    and k: "k = length d - held_len ctx (length d)"
  obtains
    (keep) "k = 0" "aes_update ciph ctx inp =
        Inr (ctx\<lparr>buf := memcpy_at (buf ctx) (bufsz ctx) inp, bufsz := length d\<rparr>, [], 0)"
  | (flush1) "k = 16" "16 \<le> length d" "aes_update ciph ctx inp =
     (case cipher ciph (ctx\<lparr>buf := take 16 d, bufsz := 16\<rparr>) (take 16 d) of
        (s, None) \<Rightarrow> Inl (ctx\<lparr>buf := take 16 d, bufsz := 16, ks := s\<rparr>)
      | (s, Some ob) \<Rightarrow>
          Inr (ctx\<lparr>buf := memcpy_at (take 16 d) 0 (drop k d), bufsz := length d - k, ks := s\<rparr>, ob, k))"
  | (flush2) "16 \<le> k" "32 \<le> length d" "aes_update ciph ctx inp =
     (case cipher ciph (ctx\<lparr>buf := take 16 d, bufsz := 16\<rparr>) (take 16 d) of
        (s, None) \<Rightarrow> Inl (ctx\<lparr>buf := take 16 d, bufsz := 16, ks := s\<rparr>)
      | (s, Some ob) \<Rightarrow>
          (case cipher ciph (ctx\<lparr>buf := take 16 d, ks := s, bufsz := 0\<rparr>) (take (k - 16) (drop 16 d)) of
             (s', None) \<Rightarrow> Inl (ctx\<lparr>buf := take 16 d, ks := s', bufsz := 0\<rparr>)
           | (s', Some ob') \<Rightarrow>
               Inr (ctx\<lparr>buf := memcpy_at (take 16 d) 0 (drop k d), bufsz := length d - k, ks := s'\<rparr>,
                    ob @ ob', k)))"
proof -
  have l: "length d = bufsz ctx + length inp"
    using ok d by (simp add: length_pending)
  have bl: "length (buf ctx) = 16" "bufsz ctx \<le> 16"
    using ok by (simp_all add: ctx_ok_def AES_BLOCK_SIZE_def)
  consider (a) "length d < 16"
    | (b) "length d = 16" "\<not> enc ctx" "pad ctx"
    | (c) "16 \<le> length d" "length d < 32" "enc ctx \<or> \<not> pad ctx \<or> 16 < length d"
    | (e) "32 \<le> length d"
    by linarith
  then show ?thesis
  proof cases
    case a
    have u: "aes_update ciph ctx inp =
           Inr (ctx\<lparr>buf := memcpy_at (buf ctx) (bufsz ctx) inp, bufsz := bufsz ctx + length inp\<rparr>, [], 0)"
      using a l by (intro aes_update_short[OF ok]) simp
    have "k = 0" using a by (simp add: k held_len_small)
    then show ?thesis using u l by (intro keep) simp_all
  next
    case b
    have u: "aes_update ciph ctx inp = Inr (ctx\<lparr>buf := pending ctx @ inp, bufsz := 16\<rparr>, [], 0)"
      using b l by (intro aes_update_hold[OF ok]) simp_all
    have m: "memcpy_at (buf ctx) (bufsz ctx) inp = pending ctx @ inp"
      using b(1) l bl by (simp add: memcpy_at_def pending_def)
    have "k = 0" using b by (simp add: k held_len_16)
    then show ?thesis using u b(1) m by (intro keep) simp_all
  next
    case c
    have k16: "k = 16" unfolding k by (rule held_len_mid[OF c])
    show ?thesis
      using aes_update_flush1[OF ok c(1,2,3)[unfolded l] d k, of ciph] k16 c(1)
      by (intro flush1)
  next
    case e
    have "16 \<le> k"
      unfolding k using e held_len_le[of ctx "length d"] by linarith
    then show ?thesis
      using aes_update_flush2[OF ok e[unfolded l] d k, of ciph] e
      by (intro flush2)
  qed
qed

lemma aes_update_Inl:
  assumes ok: "ctx_ok ctx" and r: "aes_update ciph ctx inp = Inl e"
  shows "\<exists>c x s. cipher ciph c x = (s, None) \<and> length x mod 16 = 0"
proof -
  define d where "d = pending ctx @ inp"
  define k where "k = length d - held_len ctx (length d)"
  have km: "k mod 16 = 0" unfolding k_def by (rule held_len_mod)
  have kn: "k \<le> length d" by (simp add: k_def)
  show ?thesis
  proof (cases rule: aes_update_cases[OF ok d_def k_def, of ciph, case_names keep flush1 flush2])
    case keep
    then show ?thesis using r by simp
  next
    case flush1
    obtain s r1 where c: "cipher ciph (ctx\<lparr>buf := take 16 d, bufsz := 16\<rparr>) (take 16 d) = (s, r1)"
      by (cases "cipher ciph (ctx\<lparr>buf := take 16 d, bufsz := 16\<rparr>) (take 16 d)")
    have "r1 = None" using r unfolding flush1(3) c by (cases r1) simp_all
    moreover have "length (take 16 d) mod 16 = 0" using flush1(2) by simp
    ultimately have "cipher ciph (ctx\<lparr>buf := take 16 d, bufsz := 16\<rparr>) (take 16 d) = (s, None) \<and>
        length (take 16 d) mod 16 = 0"
      using c by simp
    then show ?thesis by (intro exI)
  next
    case flush2
    obtain s r1 where c: "cipher ciph (ctx\<lparr>buf := take 16 d, bufsz := 16\<rparr>) (take 16 d) = (s, r1)"
      by (cases "cipher ciph (ctx\<lparr>buf := take 16 d, bufsz := 16\<rparr>) (take 16 d)")
    obtain s' r2 where c2: "cipher ciph (ctx\<lparr>buf := take 16 d, ks := s, bufsz := 0\<rparr>) (take (k - 16) (drop 16 d)) = (s', r2)"
      by (cases "cipher ciph (ctx\<lparr>buf := take 16 d, ks := s, bufsz := 0\<rparr>) (take (k - 16) (drop 16 d))")
    have l1: "length (take 16 d) mod 16 = 0" using flush2(2) by simp
    have "length (take (k - 16) (drop 16 d)) = k - 16" using kn by simp
    moreover have "(k - 16) mod 16 = 0"
      using km flush2(1) by (simp add: mod_eq_0_iff_dvd dvd_diff_nat)
    ultimately have l2: "length (take (k - 16) (drop 16 d)) mod 16 = 0" by simp
    have "r1 = None \<or> r2 = None"
      using r unfolding flush2(3) c by (cases r1; cases r2) (simp_all add: c2)
    then show ?thesis
    proof
      assume "r1 = None"
      then have "cipher ciph (ctx\<lparr>buf := take 16 d, bufsz := 16\<rparr>) (take 16 d) = (s, None) \<and>
        length (take 16 d) mod 16 = 0"
        using c l1 by simp
      then show ?thesis by (intro exI)
    next
      assume "r2 = None"
      then have "cipher ciph (ctx\<lparr>buf := take 16 d, ks := s, bufsz := 0\<rparr>) (take (k - 16) (drop 16 d)) = (s', None) \<and>
        length (take (k - 16) (drop 16 d)) mod 16 = 0"
        using c2 l2 by simp
      then show ?thesis by (intro exI)
    qed
  qed
qed

lemma traced_cipher:
  "cipher (traced ciph) c x = (s, r) \<Longrightarrow> snd s = snd (ks c) @ x"
  by (auto simp add: traced_def split: prod.splits)

lemma take_split: "a \<le> k \<Longrightarrow> take a d @ take (k - a) (drop a d) = take k d"
  by (metis le_add_diff_inverse take_add)

lemma aes_update_traced:
  assumes ok: "ctx_ok ctx" and r: "aes_update (traced ciph) ctx inp = Inr (ctx', out, outl)"
  shows "snd (ks ctx') = snd (ks ctx) @ take outl (pending ctx @ inp)"
proof -
  define d where "d = pending ctx @ inp"
  define k where "k = length d - held_len ctx (length d)"
  show ?thesis
  proof (cases rule: aes_update_cases[OF ok d_def k_def, of "traced ciph", case_names keep flush1 flush2])
    case keep
    then show ?thesis using r by auto
  next
    case flush1
    obtain s r1 where c: "cipher (traced ciph) (ctx\<lparr>buf := take 16 d, bufsz := 16\<rparr>) (take 16 d) = (s, r1)"
      by (cases "cipher (traced ciph) (ctx\<lparr>buf := take 16 d, bufsz := 16\<rparr>) (take 16 d)")
    have e: "ks ctx' = s \<and> outl = 16"
      using r unfolding flush1(3) c flush1(1) by (cases r1) auto
    show ?thesis
      using traced_cipher[OF c] e by (simp add: d_def)
  next
    case flush2
    obtain s r1 where c: "cipher (traced ciph) (ctx\<lparr>buf := take 16 d, bufsz := 16\<rparr>) (take 16 d) = (s, r1)"
      by (cases "cipher (traced ciph) (ctx\<lparr>buf := take 16 d, bufsz := 16\<rparr>) (take 16 d)")
    obtain s' r2 where c2: "cipher (traced ciph) (ctx\<lparr>buf := take 16 d, ks := s, bufsz := 0\<rparr>) (take (k - 16) (drop 16 d)) = (s', r2)"
      by (cases "cipher (traced ciph) (ctx\<lparr>buf := take 16 d, ks := s, bufsz := 0\<rparr>) (take (k - 16) (drop 16 d))")
    have e: "ks ctx' = s' \<and> outl = k"
      using r unfolding flush2(3) c by (cases r1; cases r2) (auto simp add: c2)
    have "snd s' = (snd (ks ctx) @ take 16 d) @ take (k - 16) (drop 16 d)"
      using traced_cipher[OF c] traced_cipher[OF c2] by simp
    then show ?thesis
      using e take_split[OF flush2(1), of d] by (simp add: d_def)
  qed
qed

lemma mod_16_diff:
  assumes "a mod 16 = 0" "a \<le> (n::nat)"
  shows "(n - a) mod 16 = n mod 16"
proof -
  obtain q where q: "a = 16 * q" using assms(1) by (auto simp add: mod_eq_0_iff_dvd)
  have "n = (n - a) + 16 * q" using assms(2) q by simp
  then have "n mod 16 = ((n - a) + 16 * q) mod 16" by simp
  also have "\<dots> = (n - a) mod 16" by simp
  finally show ?thesis by simp
qed

lemma held_len_drop:
  assumes "m \<le> n"
  shows "held_len c (n - (m - held_len c m)) = held_len c n"
proof -
  define a where "a = m - held_len c m"
  have am: "a mod 16 = 0" unfolding a_def by (rule held_len_mod)
  have an: "a \<le> n" unfolding a_def using assms by simp
  have md: "(n - a) mod 16 = n mod 16" by (rule mod_16_diff[OF am an])
  show ?thesis
  proof (cases "\<not> enc c \<and> pad c")
    case False
    then have "held_len c (n - a) = (n - a) mod 16" "held_len c n = n mod 16"
      by (auto simp add: held_len_def AES_BLOCK_SIZE_def)
    then show ?thesis unfolding a_def[symmetric] md by simp
  next
    case True
    have pos: "(0 < n - a) = (0 < n)"
    proof (cases "m = 0")
      case True
      then have "a = 0" by (simp add: a_def)
      then show ?thesis by simp
    next
      case False
      then have "0 < held_len c m"
        using True by (auto simp add: held_len_def AES_BLOCK_SIZE_def)
      moreover have "held_len c m \<le> m" by (rule held_len_le_n)
      ultimately have "a < m" unfolding a_def by linarith
      then have "0 < n - a" "0 < n" using assms by linarith+
      then show ?thesis by simp
    qed
    have "held_len c (n - a) = (if 0 < n - a \<and> (n - a) mod 16 = 0 then 16 else (n - a) mod 16)"
      using True by (simp add: held_len_def AES_BLOCK_SIZE_def)
    also have "\<dots> = (if 0 < n \<and> n mod 16 = 0 then 16 else n mod 16)"
      unfolding md pos ..
    also have "\<dots> = held_len c n"
      using True by (simp add: held_len_def AES_BLOCK_SIZE_def)
    finally show ?thesis unfolding a_def .
  qed
qed

lemma held_len_rest:
  assumes "bufsz c = 16 \<longrightarrow> \<not> enc c \<and> pad c" "bufsz c \<le> 16"
  shows "held_len c (bufsz c) = bufsz c"
proof (cases "bufsz c = 16")
  case True
  then show ?thesis using assms(1) by (simp add: held_len_16)
next
  case False
  then have "bufsz c < 16" using assms(2) by simp
  then show ?thesis by (rule held_len_small)
qed

lemma held_len_16_iff:
  assumes "held_len c n = 16"
  shows "\<not> enc c \<and> pad c"
proof (rule ccontr)
  assume "\<not> (\<not> enc c \<and> pad c)"
  then have "held_len c n = n mod 16" by (auto simp add: held_len_def AES_BLOCK_SIZE_def)
  moreover have "n mod 16 < 16" by simp
  ultimately show False using assms by simp
qed

lemma aes_updates_Inr:
  assumes "ctx_ok ctx" "aes_updates ciph ctx chunks = Inr (ctx', out, outl)"
    "D = pending ctx @ concat chunks" "bufsz ctx = 16 \<longrightarrow> \<not> enc ctx \<and> pad ctx"
  shows "outl = length D - held_len ctx (length D) \<and> bufsz ctx' = held_len ctx (length D) \<and>
         pending ctx' = drop outl D \<and> ctx_ok ctx' \<and> enc ctx' = enc ctx \<and> pad ctx' = pad ctx \<and>
         mode ctx' = mode ctx \<and> keylen ctx' = keylen ctx \<and> iv ctx' = iv ctx"
  using assms
proof (induction chunks arbitrary: ctx ctx' out outl D)
  case Nil
  have "bufsz ctx \<le> 16" using Nil.prems(1) by (simp add: ctx_ok_def AES_BLOCK_SIZE_def)
  then have "held_len ctx (bufsz ctx) = bufsz ctx"
    using Nil.prems(4) by (intro held_len_rest)
  then show ?case
    using Nil.prems(1,2,3) by (auto simp add: length_pending)
next
  case (Cons x xs)
  obtain c1 o1 l1 where u1: "aes_update ciph ctx x = Inr (c1, o1, l1)"
    using Cons.prems(2) by (cases "aes_update ciph ctx x") (auto split: sum.splits)
  obtain c2 o2 l2 where u2: "aes_updates ciph c1 xs = Inr (c2, o2, l2)"
    using Cons.prems(2) u1 by (cases "aes_updates ciph c1 xs") (auto split: sum.splits)
  have res: "ctx' = c2" "outl = l1 + l2"
    using Cons.prems(2) u1 u2 by simp_all
  define d1 where "d1 = pending ctx @ x"
  note p1 = aes_update_Inr[OF Cons.prems(1) u1 d1_def]
  define D2 where "D2 = pending c1 @ concat xs"
  have ok1: "ctx_ok c1" using p1 by blast
  have l1eq: "l1 = length d1 - held_len ctx (length d1)" using p1 by blast
  have b1: "bufsz c1 = held_len ctx (length d1)" using p1 by blast
  have pc1: "pending c1 = drop l1 d1" using p1 by blast
  have same1: "enc c1 = enc ctx" "pad c1 = pad ctx" "mode c1 = mode ctx" "keylen c1 = keylen ctx"
    "iv c1 = iv ctx" using p1 by blast+
  have rest1: "bufsz c1 = 16 \<longrightarrow> \<not> enc c1 \<and> pad c1"
    unfolding b1 same1 using held_len_16_iff[of ctx "length d1"] by blast
  note p2 = Cons.IH[OF ok1 u2 D2_def rest1]
  have l2eq: "l2 = length D2 - held_len c1 (length D2)" using p2 by blast
  have b2: "bufsz c2 = held_len c1 (length D2)" using p2 by blast
  have pc2: "pending c2 = drop l2 D2" using p2 by blast
  have ok2: "ctx_ok c2" using p2 by blast
  have same2: "enc c2 = enc c1" "pad c2 = pad c1" "mode c2 = mode c1" "keylen c2 = keylen c1"
    "iv c2 = iv c1" using p2 by blast+
  have l1: "l1 \<le> length d1" unfolding l1eq by simp
  have D: "D = d1 @ concat xs" using Cons.prems(3) by (simp add: d1_def)
  have D2: "D2 = drop l1 D" unfolding D2_def pc1 D using l1 by simp
  have lenD2: "length D2 = length D - l1" by (simp add: D2)
  have d1D: "length d1 \<le> length D" by (simp add: D)
  have hc: "held_len c1 (length D - l1) = held_len ctx (length D - l1)"
    by (rule held_len_cong[OF same1(1,2)])
  have h: "held_len ctx (length D - l1) = held_len ctx (length D)"
    unfolding l1eq by (rule held_len_drop[OF d1D])
  have hl: "held_len ctx (length D) \<le> length D - l1"
    using held_len_le_n[of ctx "length D - l1"] unfolding h .
  have l1D: "l1 \<le> length D" using l1 d1D by simp
  have l2': "l2 = length D - l1 - held_len ctx (length D)"
    unfolding l2eq lenD2 hc h ..
  have tot: "l1 + l2 = length D - held_len ctx (length D)"
    unfolding l2' using hl l1D by linarith
  have pend: "pending c2 = drop (l1 + l2) D"
    unfolding pc2 D2 by (simp add: add.commute)
  have bz: "bufsz c2 = held_len ctx (length D)"
    unfolding b2 lenD2 hc h ..
  show ?case
    unfolding res tot[symmetric] using tot pend bz ok2 same1 same2 by simp
qed

lemma aes_updates_traced:
  assumes "ctx_ok ctx" "aes_updates (traced ciph) ctx chunks = Inr (ctx', out, outl)"
  shows "snd (ks ctx') = snd (ks ctx) @ take outl (pending ctx @ concat chunks)"
  using assms
proof (induction chunks arbitrary: ctx ctx' out outl)
  case Nil
  then show ?case by simp
next
  case (Cons x xs)
  obtain c1 o1 l1 where u1: "aes_update (traced ciph) ctx x = Inr (c1, o1, l1)"
    using Cons.prems(2) by (cases "aes_update (traced ciph) ctx x") (auto split: sum.splits)
  obtain c2 o2 l2 where u2: "aes_updates (traced ciph) c1 xs = Inr (c2, o2, l2)"
    using Cons.prems(2) u1 by (cases "aes_updates (traced ciph) c1 xs") (auto split: sum.splits)
  have res: "ctx' = c2" "outl = l1 + l2"
    using Cons.prems(2) u1 u2 by simp_all
  define d1 where "d1 = pending ctx @ x"
  note p1 = aes_update_Inr[OF Cons.prems(1) u1 d1_def]
  have ok1: "ctx_ok c1" using p1 by simp
  have l1: "l1 \<le> length d1" using p1 by simp
  have j1: "snd (ks c1) = snd (ks ctx) @ take l1 d1"
    using aes_update_traced[OF Cons.prems(1) u1] by (simp add: d1_def)
  have j2: "snd (ks c2) = snd (ks c1) @ take l2 (pending c1 @ concat xs)"
    by (rule Cons.IH[OF ok1 u2])
  have pc1: "pending c1 @ concat xs = drop l1 (d1 @ concat xs)"
    using p1 l1 by simp
  have a: "take l1 d1 = take l1 (d1 @ concat xs)" using l1 by simp
  have "take l1 d1 @ take l2 (drop l1 (d1 @ concat xs)) = take (l1 + l2) (d1 @ concat xs)"
    unfolding a by (simp only: take_add)
  then show ?case
    unfolding res j2 j1 pc1 by (simp add: d1_def)
qed

section \<open>The journal does not change what the calls do\<close>

lemma untraced_simps:
  "untraced (c\<lparr>buf := b\<rparr>) = (untraced c)\<lparr>buf := b\<rparr>"
  "untraced (c\<lparr>bufsz := n\<rparr>) = (untraced c)\<lparr>bufsz := n\<rparr>"
  "untraced (c\<lparr>ks := s\<rparr>) = (untraced c)\<lparr>ks := fst s\<rparr>"
  "buf (untraced c) = buf c" "bufsz (untraced c) = bufsz c" "enc (untraced c) = enc c"
  "pad (untraced c) = pad c"
  by (simp_all add: untraced_def)

lemma traced_cipher_fst:
  "cipher (traced ciph) c x = ((fst (cipher ciph (untraced c) x), snd (ks c) @ x), snd (cipher ciph (untraced c) x))"
  by (simp add: traced_def split: prod.splits)

lemma held_sim:
  "map_sum untraced (\<lambda>(c, out, outl). (untraced c, out, outl)) (aes_update_held (traced ciph) c inp) =
     aes_update_held ciph (untraced c) inp"
proof -
  obtain s r where c: "cipher ciph (untraced c) (take AES_BLOCK_SIZE (buf c)) = (s, r)"
    by (cases "cipher ciph (untraced c) (take AES_BLOCK_SIZE (buf c))")
  show ?thesis
    unfolding aes_update_held_def traced_cipher_fst
    by (cases r) (auto simp add: untraced_simps c)
qed

lemma bulk_sim:
  "map_sum untraced (\<lambda>(c, inp', out, outl). (untraced c, inp', out, outl))
      (aes_update_bulk (traced ciph) c inp nb) =
     aes_update_bulk ciph (untraced c) inp nb"
proof -
  define n where "n = (if \<not> enc c \<and> pad c \<and> nb = length inp
                  then (if length inp \<ge> AES_BLOCK_SIZE
                        then Some (nb - AES_BLOCK_SIZE) else None)
                  else Some nb)"
  show ?thesis
  proof (cases n)
    case None
    then show ?thesis
      unfolding aes_update_bulk_def untraced_simps n_def[symmetric] by simp
  next
    case (Some m)
    obtain s r where c: "cipher ciph (untraced c) (take m inp) = (s, r)"
      by (cases "cipher ciph (untraced c) (take m inp)")
    show ?thesis
      unfolding aes_update_bulk_def untraced_simps n_def[symmetric] Some option.case traced_cipher_fst
      by (cases r) (auto simp add: untraced_simps c)
  qed
qed

lemma aes_update_sim:
  "untraced_result (aes_update (traced ciph) c inp) = aes_update ciph (untraced c) inp"
proof -
  obtain b1 n1 inp1 nb where fb: "fillblock (buf c) (bufsz c) AES_BLOCK_SIZE inp = (b1, n1, inp1, nb)"
    by (cases "fillblock (buf c) (bufsz c) AES_BLOCK_SIZE inp") auto
  let ?c1 = "c\<lparr>buf := b1, bufsz := n1\<rparr>"
  have u1: "untraced ?c1 = (untraced c)\<lparr>buf := b1, bufsz := n1\<rparr>"
    by (simp add: untraced_simps)
  note hs = held_sim[of ciph ?c1 inp1, unfolded u1]
  show ?thesis
  proof (cases "aes_update_held (traced ciph) ?c1 inp1")
    case (Inl e)
    then show ?thesis
      using hs unfolding untraced_result_def aes_update_def untraced_simps fb
      by (cases "aes_update_held ciph ((untraced c)\<lparr>buf := b1, bufsz := n1\<rparr>) inp1") auto
  next
    case (Inr t)
    obtain c2 o2 l2 where t: "t = (c2, o2, l2)" by (cases t) auto
    have h2: "aes_update_held ciph ((untraced c)\<lparr>buf := b1, bufsz := n1\<rparr>) inp1 = Inr (untraced c2, o2, l2)"
      using hs Inr t by simp
    note bs = bulk_sim[of ciph c2 inp1 nb]
    show ?thesis
    proof (cases "aes_update_bulk (traced ciph) c2 inp1 nb")
      case (Inl e)
      then have "aes_update_bulk ciph (untraced c2) inp1 nb = Inl (untraced e)"
        using bs by simp
      then show ?thesis
        using Inl Inr t h2 unfolding untraced_result_def aes_update_def untraced_simps fb
        by simp
    next
      case (Inr u)
      obtain c3 inp3 o3 l3 where u: "u = (c3, inp3, o3, l3)" by (cases u) auto
      have b3: "aes_update_bulk ciph (untraced c2) inp1 nb = Inr (untraced c3, inp3, o3, l3)"
        using bs Inr u by simp
      show ?thesis
        using Inr u \<open>aes_update_held (traced ciph) ?c1 inp1 = Inr t\<close> t h2 b3
        unfolding untraced_result_def aes_update_def untraced_simps fb
        by (cases "trailingdata (buf c3) (bufsz c3) AES_BLOCK_SIZE inp3")
           (auto simp add: untraced_simps)
    qed
  qed
qed

lemma aes_updates_sim:
  "untraced_result (aes_updates (traced ciph) c chunks) = aes_updates ciph (untraced c) chunks"
proof (induction chunks arbitrary: c)
  case Nil
  show ?case by (simp add: untraced_result_def)
next
  case (Cons x xs)
  note s1 = aes_update_sim[of ciph c x]
  show ?case
  proof (cases "aes_update (traced ciph) c x")
    case (Inl e)
    have "aes_update ciph (untraced c) x = Inl (untraced e)"
      using s1 Inl by (simp add: untraced_result_def)
    then show ?thesis using Inl by (simp add: untraced_result_def)
  next
    case (Inr t)
    obtain c1 o1 l1 where t: "t = (c1, o1, l1)" by (cases t) auto
    have u1: "aes_update ciph (untraced c) x = Inr (untraced c1, o1, l1)"
      using s1 Inr t by (simp add: untraced_result_def)
    note s2 = Cons.IH[of c1]
    show ?thesis
    proof (cases "aes_updates (traced ciph) c1 xs")
      case (Inl e)
      have "aes_updates ciph (untraced c1) xs = Inl (untraced e)"
        using s2 Inl by (simp add: untraced_result_def)
      then show ?thesis using Inl Inr t u1 by (simp add: untraced_result_def)
    next
      case (Inr t2)
      obtain c2 o2 l2 where t2: "t2 = (c2, o2, l2)" by (cases t2) auto
      have "aes_updates ciph (untraced c1) xs = Inr (untraced c2, o2, l2)"
        using s2 Inr t2 by (simp add: untraced_result_def)
      then show ?thesis
        using Inr t2 \<open>aes_update (traced ciph) c x = Inr t\<close> t u1
        by (simp add: untraced_result_def)
    qed
  qed
qed

lemma traced_refusal:
  assumes "cipher (traced ciph) c x = (s, None)"
  shows "cipher ciph (untraced c) x = (fst s, None)"
  using assms unfolding traced_cipher_fst by (cases "cipher ciph (untraced c) x") auto

lemma aes_update_fails_iff:
  assumes ok: "ctx_ok ctx" and d: "d = pending ctx @ inp"
    and k: "k = length d - held_len ctx (length d)"
    and c1: "c1 = ctx\<lparr>buf := take 16 d, bufsz := 16\<rparr>"
    and c2: "c2 = ctx\<lparr>buf := take 16 d, ks := fst (cipher ciph c1 (take 16 d)), bufsz := 0\<rparr>"
  shows "(\<exists>e. aes_update ciph ctx inp = Inl e) \<longleftrightarrow>
     16 \<le> k \<and> (snd (cipher ciph c1 (take 16 d)) = None \<or>
               32 \<le> length d \<and> snd (cipher ciph c2 (take (k - 16) (drop 16 d))) = None)"
proof -
  have l: "length d = bufsz ctx + length inp"
    using ok d by (simp add: length_pending)
  obtain s r1 where q1: "cipher ciph c1 (take 16 d) = (s, r1)"
    by (cases "cipher ciph c1 (take 16 d)")
  have c2': "c2 = ctx\<lparr>buf := take 16 d, ks := s, bufsz := 0\<rparr>"
    unfolding c2 q1 by simp
  obtain s' r2 where q2: "cipher ciph c2 (take (k - 16) (drop 16 d)) = (s', r2)"
    by (cases "cipher ciph c2 (take (k - 16) (drop 16 d))")
  consider (a) "length d < 16"
    | (b) "length d = 16" "\<not> enc ctx" "pad ctx"
    | (c) "16 \<le> length d" "length d < 32" "enc ctx \<or> \<not> pad ctx \<or> 16 < length d"
    | (e) "32 \<le> length d"
    by linarith
  then show ?thesis
  proof cases
    case a
    have u: "aes_update ciph ctx inp =
           Inr (ctx\<lparr>buf := memcpy_at (buf ctx) (bufsz ctx) inp, bufsz := bufsz ctx + length inp\<rparr>, [], 0)"
      using a l by (intro aes_update_short[OF ok]) simp
    have "k = 0" using a by (simp add: k held_len_small)
    then show ?thesis unfolding u by simp
  next
    case b
    have u: "aes_update ciph ctx inp = Inr (ctx\<lparr>buf := pending ctx @ inp, bufsz := 16\<rparr>, [], 0)"
      using b l by (intro aes_update_hold[OF ok]) simp_all
    have "k = 0" using b by (simp add: k held_len_16)
    then show ?thesis unfolding u by simp
  next
    case c
    have k16: "k = 16" unfolding k by (rule held_len_mid[OF c])
    note u = aes_update_flush1[OF ok c(1,2,3)[unfolded l] d k, of ciph, folded c1, unfolded q1 prod.case]
    have n32: "\<not> 32 \<le> length d" using c(2) by simp
    show ?thesis
      unfolding u q1 k16 using n32 by (cases r1) simp_all
  next
    case e
    have k16: "16 \<le> k"
      unfolding k using e held_len_le[of ctx "length d"] by linarith
    note u = aes_update_flush2[OF ok e[unfolded l] d k, of ciph, folded c1, unfolded q1 prod.case,
        folded c2', unfolded q2 prod.case]
    show ?thesis
      unfolding u q1 q2 using k16 e by (cases r1; cases r2) simp_all
  qed
qed

text \<open>
  C5, as amended.  Run \<^verbatim>\<open>update\<close> with the journal around any transform; the journal
  changes nothing of what \<^verbatim>\<open>update\<close> returns.  When \<^verbatim>\<open>update\<close> succeeds, the bytes
  passed to the transform are exactly the first \<open>outl\<close> bytes of pending followed by
  input, the rest is what is pending afterwards, so no byte is dropped, and \<open>outl\<close>,
  the reported output length, is the number of bytes transformed, a whole number of
  blocks.  \<^verbatim>\<open>update\<close> fails exactly when the transform refuses one of the calls that
  \<^verbatim>\<open>update\<close> makes: the call on the first block of pending followed by input, made
  when at least one block is due for the transform, or the call on the whole blocks
  after it, made when two blocks or more have accumulated.  With a transform that
  never refuses, \<^verbatim>\<open>update\<close> succeeds.
\<close>

theorem update_accounts_for_every_input_byte:
  assumes "ctx_ok ctx"
  shows
   "untraced_result (aes_update (traced ciph) ctx inp) = aes_update ciph (untraced ctx) inp \<and>
    (\<forall>ctx' out outl. aes_update (traced ciph) ctx inp = Inr (ctx', out, outl) \<longrightarrow>
       snd (ks ctx') = snd (ks ctx) @ take outl (pending ctx @ inp) \<and>
       pending ctx' = drop outl (pending ctx @ inp) \<and>
       outl \<le> length (pending ctx @ inp) \<and> outl mod AES_BLOCK_SIZE = 0) \<and>
    (let d = pending ctx @ inp;
         k = length d - held_len ctx (length d);
         c1 = ctx\<lparr>buf := take AES_BLOCK_SIZE d, bufsz := AES_BLOCK_SIZE\<rparr>;
         c2 = ctx\<lparr>buf := take AES_BLOCK_SIZE d,
                  ks := fst (cipher (traced ciph) c1 (take AES_BLOCK_SIZE d)), bufsz := 0\<rparr>
     in (\<exists>e. aes_update (traced ciph) ctx inp = Inl e) \<longleftrightarrow>
        AES_BLOCK_SIZE \<le> k \<and>
        (snd (cipher (traced ciph) c1 (take AES_BLOCK_SIZE d)) = None \<or>
         AES_BLOCK_SIZE + AES_BLOCK_SIZE \<le> length d \<and>
         snd (cipher (traced ciph) c2 (take (k - AES_BLOCK_SIZE) (drop AES_BLOCK_SIZE d))) = None)) \<and>
    ((\<forall>c x. snd (cipher ciph c x) \<noteq> None) \<longrightarrow>
       (\<exists>ctx' out outl. aes_update (traced ciph) ctx inp = Inr (ctx', out, outl)))"
    (is "?A \<and> ?B \<and> ?C \<and> ?D")
proof -
  have A: ?A by (rule aes_update_sim)
  have B: "snd (ks ctx') = snd (ks ctx) @ take outl (pending ctx @ inp) \<and>
       pending ctx' = drop outl (pending ctx @ inp) \<and>
       outl \<le> length (pending ctx @ inp) \<and> outl mod 16 = 0"
    if r: "aes_update (traced ciph) ctx inp = Inr (ctx', out, outl)" for ctx' out outl
  proof -
    note p = aes_update_Inr[OF assms r refl]
    have o: "outl = length (pending ctx @ inp) - held_len ctx (length (pending ctx @ inp))"
      using p by blast
    have "outl mod 16 = 0" unfolding o by (rule held_len_mod)
    moreover have "outl \<le> length (pending ctx @ inp)" unfolding o by simp
    moreover have "pending ctx' = drop outl (pending ctx @ inp)" using p by blast
    ultimately show ?thesis using aes_update_traced[OF assms r] by blast
  qed
  have B': ?B unfolding AES_BLOCK_SIZE_def using B by blast
  have C: ?C
    unfolding AES_BLOCK_SIZE_def Let_def
    using aes_update_fails_iff[OF assms refl refl refl refl, where inp=inp and ciph="traced ciph"] by simp
  have R: "\<exists>c x s. cipher ciph c x = (s, None)"
    if r: "aes_update (traced ciph) ctx inp = Inl e" for e
  proof -
    obtain c x s where "cipher (traced ciph) c x = (s, None)"
      using aes_update_Inl[OF assms r] by auto
    then have "cipher ciph (untraced c) x = (fst s, None)"
      by (rule traced_refusal)
    then show ?thesis by (intro exI)
  qed
  have D: ?D
  proof
    assume t: "\<forall>c x. snd (cipher ciph c x) \<noteq> None"
    show "\<exists>ctx' out outl. aes_update (traced ciph) ctx inp = Inr (ctx', out, outl)"
    proof (cases "aes_update (traced ciph) ctx inp")
      case (Inl e)
      then obtain c x s where "cipher ciph c x = (s, None)" using R by blast
      then have "snd (cipher ciph c x) = None" by simp
      then show ?thesis using t by blast
    next
      case (Inr t)
      then show ?thesis by (cases t) auto
    qed
  qed
  show ?thesis by (intro conjI A B' C D)
qed

theorem update_accounts_for_every_input_byte_witness:
  "ctx_ok (demo_traced True True [72, 69, 76, 76, 79]) \<and>
   (\<exists>ctx' out. aes_update (traced shift_ciph) (demo_traced True True [72, 69, 76, 76, 79])
          (replicate 30 9) = Inr (ctx', out, 32) \<and>
      snd (ks ctx') = [72, 69, 76, 76, 79] @ replicate 27 9 \<and>
      pending ctx' = [9, 9, 9])"
proof -
  let ?c = "demo_traced True True [72, 69, 76, 76, 79]"
  have ok: "ctx_ok ?c" by code_simp
  have v: "map_sum (\<lambda>_. ()) (\<lambda>(c', out, n). n) (aes_update (traced shift_ciph) ?c (replicate 30 9)) = Inr 32"
    by code_simp
  then obtain ctx' out where r: "aes_update (traced shift_ciph) ?c (replicate 30 9) = Inr (ctx', out, 32)"
    by (cases "aes_update (traced shift_ciph) ?c (replicate 30 9)") auto
  have t: "snd (ks ?c) @ take 32 (pending ?c @ replicate 30 9) = [72, 69, 76, 76, 79] @ replicate 27 9"
    by code_simp
  have d: "drop 32 (pending ?c @ replicate 30 9) = [9, 9, 9]"
    by code_simp
  note T = update_accounts_for_every_input_byte[OF ok, of shift_ciph "replicate 30 9",
      THEN conjunct2, THEN conjunct1]
  have "snd (ks ctx') = snd (ks ?c) @ take 32 (pending ?c @ replicate 30 9) \<and>
      pending ctx' = drop 32 (pending ?c @ replicate 30 9)"
    using T r by blast
  then show ?thesis
    unfolding t d using ok r by blast
qed

text \<open>
  The claim C5 as stated, success if and only if every input byte was transformed or
  retained, fails from right to left: on an encrypting context with 15 bytes pending,
  an \<^verbatim>\<open>update\<close> of one byte with a transform that refuses its call returns failure,
  and the input byte is retained in the pending buffer, which is then full.
\<close>

theorem update_fails_with_input_retained:
  "map_sum (\<lambda>c. (pending c, bufsz c)) (\<lambda>_. ())
     (aes_update failing_ciph (demo_ctx True True (replicate 15 7)) [9]) =
   Inl (replicate 15 7 @ [9], 16)"
  by code_simp

section \<open>An update without input\<close>

lemma aes_update_empty:
  assumes "\<not> (bufsz ctx = 16 \<and> (enc ctx \<or> \<not> pad ctx))"
  shows "aes_update ciph ctx [] = Inr (ctx, [], 0)"
proof -
  have fb: "fillblock (buf ctx) (bufsz ctx) 16 [] = (buf ctx, bufsz ctx, [], 0)"
    by (simp add: fillblock_def memcpy_at_def)
  have h: "aes_update_held ciph ctx [] = Inr (ctx, [], 0)"
    using assms by (intro aes_update_held_keep) auto
  show ?thesis
    unfolding aes_update_def AES_BLOCK_SIZE_def fb
    by (simp add: h aes_update_bulk_none trailingdata_def)
qed

lemma aes_update_empty_flush:
  assumes "bufsz ctx = 16" "enc ctx \<or> \<not> pad ctx"
  shows "aes_update ciph ctx [] \<noteq> Inr (ctx, [], 0)"
proof -
  have fb: "fillblock (buf ctx) (bufsz ctx) 16 [] = (buf ctx, bufsz ctx, [], 0)"
    by (simp add: fillblock_def memcpy_at_def)
  obtain s r where c: "cipher ciph ctx (take 16 (buf ctx)) = (s, r)"
    by (cases "cipher ciph ctx (take 16 (buf ctx))")
  have h: "aes_update_held ciph ctx [] =
     (case r of None \<Rightarrow> Inl (ctx\<lparr>ks := s\<rparr>) | Some ob \<Rightarrow> Inr (ctx\<lparr>ks := s, bufsz := 0\<rparr>, ob, 16))"
    using assms aes_update_held_flush[of ctx "[]" ciph] c by auto
  have "aes_update ciph ctx [] =
     (case r of None \<Rightarrow> Inl (ctx\<lparr>ks := s\<rparr>) | Some ob \<Rightarrow> Inr (ctx\<lparr>ks := s, bufsz := 0\<rparr>, ob, 16))"
    unfolding aes_update_def AES_BLOCK_SIZE_def fb
    by (cases r) (simp_all add: h aes_update_bulk_none trailingdata_def)
  then show ?thesis by (cases r) simp_all
qed

lemma aes_update_empty_full:
  assumes "bufsz ctx = 16" "enc ctx \<or> \<not> pad ctx"
  shows "aes_update ciph ctx [] =
     (case cipher ciph ctx (pending ctx) of
        (s, None) \<Rightarrow> Inl (ctx\<lparr>ks := s\<rparr>)
      | (s, Some ob) \<Rightarrow> Inr (ctx\<lparr>ks := s, bufsz := 0\<rparr>, ob, 16))"
proof -
  have fb: "fillblock (buf ctx) (bufsz ctx) 16 [] = (buf ctx, bufsz ctx, [], 0)"
    by (simp add: fillblock_def memcpy_at_def)
  have pe: "pending ctx = take 16 (buf ctx)"
    using assms(1) by (simp add: pending_def)
  obtain s r where c: "cipher ciph ctx (take 16 (buf ctx)) = (s, r)"
    by (cases "cipher ciph ctx (take 16 (buf ctx))")
  have h: "aes_update_held ciph ctx [] =
     (case r of None \<Rightarrow> Inl (ctx\<lparr>ks := s\<rparr>) | Some ob \<Rightarrow> Inr (ctx\<lparr>ks := s, bufsz := 0\<rparr>, ob, 16))"
    using assms aes_update_held_flush[of ctx "[]" ciph] c by auto
  have "aes_update ciph ctx [] =
     (case r of None \<Rightarrow> Inl (ctx\<lparr>ks := s\<rparr>) | Some ob \<Rightarrow> Inr (ctx\<lparr>ks := s, bufsz := 0\<rparr>, ob, 16))"
    unfolding aes_update_def AES_BLOCK_SIZE_def fb
    by (cases r) (simp_all add: h aes_update_bulk_none trailingdata_def)
  then show ?thesis unfolding pe c by simp
qed

text \<open>
  C10, as amended.  An \<^verbatim>\<open>update\<close> with no input succeeds, reports zero bytes and
  leaves the whole context as it is, in every context except one whose pending buffer
  holds a full block while the context is encrypting or has padding disabled.  There
  \<^verbatim>\<open>update\<close> hands the pending block to the transform: when the transform accepts
  it, \<^verbatim>\<open>update\<close> succeeds, reports one block of output and empties the pending
  buffer; when the transform refuses it, \<^verbatim>\<open>update\<close> fails; neither is the call
  without effect.  The exception does not arise in a context that a successful
  \<^verbatim>\<open>update\<close> has just returned.
\<close>

theorem zero_length_update:
  shows
   "(\<not> (bufsz ctx = AES_BLOCK_SIZE \<and> (enc ctx \<or> \<not> pad ctx)) \<longrightarrow>
       aes_update ciph ctx [] = Inr (ctx, [], 0)) \<and>
    (bufsz ctx = AES_BLOCK_SIZE \<and> (enc ctx \<or> \<not> pad ctx) \<longrightarrow>
       aes_update ciph ctx [] =
         (case cipher ciph ctx (pending ctx) of
            (s, None) \<Rightarrow> Inl (ctx\<lparr>ks := s\<rparr>)
          | (s, Some ob) \<Rightarrow> Inr (ctx\<lparr>ks := s, bufsz := 0\<rparr>, ob, AES_BLOCK_SIZE)) \<and>
       aes_update ciph ctx [] \<noteq> Inr (ctx, [], 0)) \<and>
    (\<forall>c0 inp out outl. ctx_ok c0 \<and> aes_update ciph c0 inp = Inr (ctx, out, outl) \<longrightarrow>
       aes_update ciph ctx [] = Inr (ctx, [], 0))"
    (is "?A \<and> ?B \<and> ?C")
proof -
  have A: ?A
    unfolding AES_BLOCK_SIZE_def using aes_update_empty by blast
  have B: ?B
    unfolding AES_BLOCK_SIZE_def
  proof (intro impI conjI)
    assume h: "bufsz ctx = 16 \<and> (enc ctx \<or> \<not> pad ctx)"
    show "aes_update ciph ctx [] =
         (case cipher ciph ctx (pending ctx) of
            (s, None) \<Rightarrow> Inl (ctx\<lparr>ks := s\<rparr>)
          | (s, Some ob) \<Rightarrow> Inr (ctx\<lparr>ks := s, bufsz := 0\<rparr>, ob, 16))"
      using h by (intro aes_update_empty_full) simp_all
    show "aes_update ciph ctx [] \<noteq> Inr (ctx, [], 0)"
      using h by (intro aes_update_empty_flush) simp_all
  qed
  have C: "aes_update ciph ctx [] = Inr (ctx, [], 0)"
    if h: "ctx_ok c0" "aes_update ciph c0 inp = Inr (ctx, out, outl)" for c0 inp out outl
  proof -
    note p = aes_update_Inr[OF h refl]
    have b: "bufsz ctx = held_len c0 (length (pending c0 @ inp))" using p by blast
    have same: "enc ctx = enc c0" "pad ctx = pad c0" using p by blast+
    have "\<not> (bufsz ctx = 16 \<and> (enc ctx \<or> \<not> pad ctx))"
      unfolding b same using held_len_16_iff[of c0 "length (pending c0 @ inp)"] by blast
    then show ?thesis by (rule aes_update_empty)
  qed
  have C': ?C using C by blast
  show ?thesis by (intro conjI A B C')
qed

theorem zero_length_update_witness:
  "\<not> (bufsz (demo_ctx False True (replicate 16 7)) = AES_BLOCK_SIZE \<and>
       (enc (demo_ctx False True (replicate 16 7)) \<or> \<not> pad (demo_ctx False True (replicate 16 7)))) \<and>
   bufsz (demo_ctx False True (replicate 16 7)) = 16 \<and>
   aes_update shift_ciph (demo_ctx False True (replicate 16 7)) [] =
     Inr (demo_ctx False True (replicate 16 7), [], 0) \<and>
   bufsz (demo_ctx True True (replicate 16 7)) = AES_BLOCK_SIZE \<and>
   enc (demo_ctx True True (replicate 16 7)) \<and>
   aes_update shift_ciph (demo_ctx True True (replicate 16 7)) [] =
     Inr ((demo_ctx True True (replicate 16 7))\<lparr>ks := (3, True), bufsz := 0\<rparr>, replicate 16 10, 16) \<and>
   aes_update failing_ciph (demo_ctx True True (replicate 16 7)) [] =
     Inl ((demo_ctx True True (replicate 16 7))\<lparr>ks := (3, True)\<rparr>)"
proof -
  let ?c = "demo_ctx False True (replicate 16 7)"
  let ?e = "demo_ctx True True (replicate 16 7)"
  have p: "\<not> (bufsz ?c = AES_BLOCK_SIZE \<and> (enc ?c \<or> \<not> pad ?c))" by code_simp
  have b: "bufsz ?c = 16" by code_simp
  have n: "aes_update shift_ciph ?c [] = Inr (?c, [], 0)"
    using p zero_length_update[of ?c shift_ciph] by blast
  have be: "bufsz ?e = AES_BLOCK_SIZE" by code_simp
  have ee: "enc ?e" by code_simp
  have q: "bufsz ?e = AES_BLOCK_SIZE \<and> (enc ?e \<or> \<not> pad ?e)" using be ee by simp
  have c1: "cipher shift_ciph ?e (pending ?e) = ((3, True), Some (replicate 16 10))"
    by code_simp
  have c2: "cipher failing_ciph ?e (pending ?e) = ((3, True), None)"
    by code_simp
  have f1: "aes_update shift_ciph ?e [] =
      Inr (?e\<lparr>ks := (3, True), bufsz := 0\<rparr>, replicate 16 10, 16)"
    using mp[OF zero_length_update[of ?e shift_ciph, THEN conjunct2, THEN conjunct1] q, THEN conjunct1]
    unfolding c1 by (simp add: AES_BLOCK_SIZE_def)
  have f2: "aes_update failing_ciph ?e [] = Inl (?e\<lparr>ks := (3, True)\<rparr>)"
    using mp[OF zero_length_update[of ?e failing_ciph, THEN conjunct2, THEN conjunct1] q, THEN conjunct1]
    unfolding c2 by simp
  show ?thesis by (intro conjI p b n be ee f1 f2)
qed

text \<open>
  The claim C10 as stated, for every reachable context under an unchanged padding
  flag, fails: \<^verbatim>\<open>init\<close> does not reset the fill count, so a fresh context after
  \<^verbatim>\<open>decrypt_init\<close>, an \<^verbatim>\<open>update\<close> of one block and \<^verbatim>\<open>encrypt_init\<close> holds a full block
  while encrypting, and an \<^verbatim>\<open>update\<close> with no input then transforms and reports that
  block.
\<close>

theorem zero_length_update_counterexample:
  "reachable shift_ciph kv_api (0, False)
     (ctx_after shift_ciph kv_api (Einit None None)
       (ctx_after shift_ciph kv_api (Update (replicate 16 7))
         (ctx_after shift_ciph kv_api (Dinit (Some (replicate 16 3)) None)
           (aes_128_ecb_newctx (0, False))))) \<and>
   pad (ctx_after shift_ciph kv_api (Einit None None)
       (ctx_after shift_ciph kv_api (Update (replicate 16 7))
         (ctx_after shift_ciph kv_api (Dinit (Some (replicate 16 3)) None)
           (aes_128_ecb_newctx (0, False))))) = pad (aes_128_ecb_newctx (0, False)) \<and>
   bufsz (ctx_after shift_ciph kv_api (Einit None None)
       (ctx_after shift_ciph kv_api (Update (replicate 16 7))
         (ctx_after shift_ciph kv_api (Dinit (Some (replicate 16 3)) None)
           (aes_128_ecb_newctx (0, False))))) = 16 \<and>
   map_sum (\<lambda>_. ()) (\<lambda>(c', out, outl). (bufsz c', out, outl))
     (aes_update shift_ciph
       (ctx_after shift_ciph kv_api (Einit None None)
         (ctx_after shift_ciph kv_api (Update (replicate 16 7))
           (ctx_after shift_ciph kv_api (Dinit (Some (replicate 16 3)) None)
             (aes_128_ecb_newctx (0, False))))) []) =
     Inr (0, replicate 16 4, 16) \<and>
   aes_update shift_ciph
       (ctx_after shift_ciph kv_api (Einit None None)
         (ctx_after shift_ciph kv_api (Update (replicate 16 7))
           (ctx_after shift_ciph kv_api (Dinit (Some (replicate 16 3)) None)
             (aes_128_ecb_newctx (0, False))))) [] \<noteq>
     Inr (ctx_after shift_ciph kv_api (Einit None None)
         (ctx_after shift_ciph kv_api (Update (replicate 16 7))
           (ctx_after shift_ciph kv_api (Dinit (Some (replicate 16 3)) None)
             (aes_128_ecb_newctx (0, False)))), [], 0)"
proof -
  let ?c = "ctx_after shift_ciph kv_api (Einit None None)
       (ctx_after shift_ciph kv_api (Update (replicate 16 7))
         (ctx_after shift_ciph kv_api (Dinit (Some (replicate 16 3)) None)
           (aes_128_ecb_newctx (0, False))))"
  have r: "reachable shift_ciph kv_api (0, False) ?c"
    by (intro reachable.call reachable.new128)
  have p: "pad ?c = pad (aes_128_ecb_newctx (0, False))" by code_simp
  have b: "bufsz ?c = 16" by code_simp
  have v: "map_sum (\<lambda>_. ()) (\<lambda>(c', out, outl). (bufsz c', out, outl)) (aes_update shift_ciph ?c []) =
     Inr (0, replicate 16 4, 16)"
    by code_simp
  have n: "aes_update shift_ciph ?c [] \<noteq> Inr (?c, [], 0)"
  proof
    assume "aes_update shift_ciph ?c [] = Inr (?c, [], 0)"
    then have "map_sum (\<lambda>_. ()) (\<lambda>(c', out, outl). (bufsz c', out, outl)) (aes_update shift_ciph ?c []) =
       Inr (bufsz ?c, [], 0)"
      by simp
    then show False unfolding v by simp
  qed
  show ?thesis using r p b v n by blast
qed

section \<open>The block held back when decrypting\<close>

text \<open>
  C2.  On a decrypting context with padding enabled, after any sequence of \<^verbatim>\<open>update\<close>
  calls that all succeed: when pending and the chunks together are not empty and end
  on a block boundary, exactly one full block is pending, it is the last block of
  those bytes, and the transform has been passed the bytes before it and nothing else;
  in general some byte is always left pending and the transform has seen only what
  precedes the pending bytes.  An \<^verbatim>\<open>update\<close> with no input on a held full block calls
  no transform (it succeeds even with a transform that refuses every call).  For any
  direction and padding flag, an \<^verbatim>\<open>update\<close> on a context holding a full block passes
  that block to the transform exactly when the context is encrypting, or input was
  supplied, or padding is disabled.  The journal changes nothing of what the calls
  return.
\<close>

theorem decrypt_holds_back_last_block:
  assumes "ctx_ok ctx"
  shows
   "untraced_result (aes_updates (traced ciph) ctx chunks) = aes_updates ciph (untraced ctx) chunks \<and>
    (\<not> enc ctx \<and> pad ctx \<longrightarrow>
      (\<forall>ctx' out outl. aes_updates (traced ciph) ctx chunks = Inr (ctx', out, outl) \<longrightarrow>
          pending ctx @ concat chunks \<noteq> [] \<longrightarrow>
          length (pending ctx @ concat chunks) mod AES_BLOCK_SIZE = 0 \<longrightarrow>
            bufsz ctx' = AES_BLOCK_SIZE \<and>
            pending ctx' =
              drop (length (pending ctx @ concat chunks) - AES_BLOCK_SIZE) (pending ctx @ concat chunks) \<and>
            snd (ks ctx') = snd (ks ctx) @
              take (length (pending ctx @ concat chunks) - AES_BLOCK_SIZE) (pending ctx @ concat chunks)) \<and>
      (\<forall>ctx' out outl. aes_updates (traced ciph) ctx chunks = Inr (ctx', out, outl) \<longrightarrow>
          pending ctx @ concat chunks \<noteq> [] \<longrightarrow>
            0 < bufsz ctx' \<and>
            pending ctx' = drop outl (pending ctx @ concat chunks) \<and>
            snd (ks ctx') = snd (ks ctx) @ take outl (pending ctx @ concat chunks) \<and>
            outl + bufsz ctx' = length (pending ctx @ concat chunks)) \<and>
      (bufsz ctx = AES_BLOCK_SIZE \<longrightarrow> aes_update failing_ciph ctx [] = Inr (ctx, [], 0))) \<and>
    (bufsz ctx = AES_BLOCK_SIZE \<longrightarrow>
      (\<forall>ctx' out outl. aes_update (traced ciph) ctx inp = Inr (ctx', out, outl) \<longrightarrow>
          snd (ks ctx') = snd (ks ctx) @ take outl (pending ctx @ inp) \<and>
          (AES_BLOCK_SIZE \<le> outl) = (enc ctx \<or> inp \<noteq> [] \<or> \<not> pad ctx)))"
    (is "?S \<and> (?dp \<longrightarrow> ?A \<and> ?G \<and> ?B) \<and> ?C")
proof -
  have S: "untraced_result (aes_updates (traced ciph) ctx chunks) = aes_updates ciph (untraced ctx) chunks"
    by (rule aes_updates_sim)
  have G: "0 < bufsz ctx' \<and>
            pending ctx' = drop outl (pending ctx @ concat chunks) \<and>
            snd (ks ctx') = snd (ks ctx) @ take outl (pending ctx @ concat chunks) \<and>
            outl + bufsz ctx' = length (pending ctx @ concat chunks) \<and>
            bufsz ctx' = held_len ctx (length (pending ctx @ concat chunks))"
    if dp: "\<not> enc ctx" "pad ctx"
      and r: "aes_updates (traced ciph) ctx chunks = Inr (ctx', out, outl)"
      and ne: "pending ctx @ concat chunks \<noteq> []" for ctx' out outl
  proof -
    define D where "D = pending ctx @ concat chunks"
    have rest: "bufsz ctx = 16 \<longrightarrow> \<not> enc ctx \<and> pad ctx" using dp by simp
    note p = aes_updates_Inr[OF assms r D_def rest]
    have o: "outl = length D - held_len ctx (length D)" using p by blast
    have b: "bufsz ctx' = held_len ctx (length D)" using p by blast
    have pe: "pending ctx' = drop outl D" using p by blast
    have n0: "0 < length D" using ne by (simp add: D_def)
    have hpos: "0 < held_len ctx (length D)"
      using dp n0 by (auto simp add: held_len_def AES_BLOCK_SIZE_def)
    have hle: "held_len ctx (length D) \<le> length D" by (rule held_len_le_n)
    have j: "snd (ks ctx') = snd (ks ctx) @ take outl D"
      using aes_updates_traced[OF assms r] by (simp add: D_def)
    show ?thesis
      unfolding D_def[symmetric] using b pe j hpos hle o by simp
  qed
  have A: "bufsz ctx' = 16 \<and>
            pending ctx' = drop (length (pending ctx @ concat chunks) - 16) (pending ctx @ concat chunks) \<and>
            snd (ks ctx') = snd (ks ctx) @
              take (length (pending ctx @ concat chunks) - 16) (pending ctx @ concat chunks)"
    if dp: "\<not> enc ctx" "pad ctx"
      and r: "aes_updates (traced ciph) ctx chunks = Inr (ctx', out, outl)"
      and ne: "pending ctx @ concat chunks \<noteq> []"
      and m: "length (pending ctx @ concat chunks) mod 16 = 0" for ctx' out outl
  proof -
    note g = G[OF dp r ne]
    have h16: "held_len ctx (length (pending ctx @ concat chunks)) = 16"
      using dp ne m by (simp add: held_len_def AES_BLOCK_SIZE_def)
    have b: "bufsz ctx' = 16" using g h16 by simp
    have "outl + 16 = length (pending ctx @ concat chunks)" using g b by simp
    then have o: "outl = length (pending ctx @ concat chunks) - 16" by simp
    show ?thesis using g b unfolding o by blast
  qed
  have B: "aes_update failing_ciph ctx [] = Inr (ctx, [], 0)" if "\<not> enc ctx" "pad ctx"
    using that by (intro aes_update_empty) simp
  have C: "snd (ks ctx') = snd (ks ctx) @ take outl (pending ctx @ inp) \<and>
          (16 \<le> outl) = (enc ctx \<or> inp \<noteq> [] \<or> \<not> pad ctx)"
    if bz: "bufsz ctx = 16" and r: "aes_update (traced ciph) ctx inp = Inr (ctx', out, outl)"
    for ctx' out outl
  proof -
    note p = aes_update_Inr[OF assms r refl]
    have l: "length (pending ctx @ inp) = 16 + length inp"
      using assms bz by (simp add: length_pending)
    have o: "outl = 16 + length inp - held_len ctx (16 + length inp)"
      using p unfolding l by blast
    have j: "snd (ks ctx') = snd (ks ctx) @ take outl (pending ctx @ inp)"
      by (rule aes_update_traced[OF assms r])
    have e: "(16 \<le> outl) = (enc ctx \<or> inp \<noteq> [] \<or> \<not> pad ctx)"
    proof (cases "enc ctx \<or> inp \<noteq> [] \<or> \<not> pad ctx")
      case False
      then have "held_len ctx (16 + length inp) = 16"
        by (simp add: held_len_def AES_BLOCK_SIZE_def)
      then show ?thesis using False o by simp
    next
      case True
      have "held_len ctx (16 + length inp) \<le> length inp"
      proof (cases "\<not> enc ctx \<and> pad ctx \<and> (16 + length inp) mod 16 = 0")
        case True
        then have "inp \<noteq> []" using \<open>enc ctx \<or> inp \<noteq> [] \<or> \<not> pad ctx\<close> by blast
        moreover have "length inp mod 16 = 0" using True by simp
        ultimately have "16 \<le> length inp"
          by (metis length_0_conv mod_less not_le)
        then show ?thesis using held_len_le[of ctx "16 + length inp"] by linarith
      next
        case False
        then have "held_len ctx (16 + length inp) = (16 + length inp) mod 16"
          by (auto simp add: held_len_def AES_BLOCK_SIZE_def)
        also have "\<dots> = length inp mod 16" by simp
        also have "\<dots> \<le> length inp" by (rule mod_less_eq_dividend)
        finally show ?thesis .
      qed
      then show ?thesis using True o by simp
    qed
    show ?thesis using j e by blast
  qed
  have a: ?A if ?dp
    unfolding AES_BLOCK_SIZE_def
  proof (intro allI impI)
    fix ctx' out outl
    assume "aes_updates (traced ciph) ctx chunks = Inr (ctx', out, outl)"
      "pending ctx @ concat chunks \<noteq> []" "length (pending ctx @ concat chunks) mod 16 = 0"
    then show "bufsz ctx' = 16 \<and>
            pending ctx' = drop (length (pending ctx @ concat chunks) - 16) (pending ctx @ concat chunks) \<and>
            snd (ks ctx') = snd (ks ctx) @
              take (length (pending ctx @ concat chunks) - 16) (pending ctx @ concat chunks)"
      using that by (intro A) simp_all
  qed
  have g: ?G if ?dp
  proof (intro allI impI)
    fix ctx' out outl
    assume h: "aes_updates (traced ciph) ctx chunks = Inr (ctx', out, outl)"
      "pending ctx @ concat chunks \<noteq> []"
    have "0 < bufsz ctx' \<and>
            pending ctx' = drop outl (pending ctx @ concat chunks) \<and>
            snd (ks ctx') = snd (ks ctx) @ take outl (pending ctx @ concat chunks) \<and>
            outl + bufsz ctx' = length (pending ctx @ concat chunks) \<and>
            bufsz ctx' = held_len ctx (length (pending ctx @ concat chunks))"
      using that h by (intro G) simp_all
    then show "0 < bufsz ctx' \<and>
            pending ctx' = drop outl (pending ctx @ concat chunks) \<and>
            snd (ks ctx') = snd (ks ctx) @ take outl (pending ctx @ concat chunks) \<and>
            outl + bufsz ctx' = length (pending ctx @ concat chunks)"
      by simp
  qed
  have b: ?B if ?dp
    unfolding AES_BLOCK_SIZE_def using that by (intro impI B) simp_all
  have c: ?C
    unfolding AES_BLOCK_SIZE_def
  proof (intro allI impI)
    fix ctx' out outl
    assume "bufsz ctx = 16" "aes_update (traced ciph) ctx inp = Inr (ctx', out, outl)"
    then show "snd (ks ctx') = snd (ks ctx) @ take outl (pending ctx @ inp) \<and>
          (16 \<le> outl) = (enc ctx \<or> inp \<noteq> [] \<or> \<not> pad ctx)"
      by (rule C)
  qed
  have dp: "?dp \<longrightarrow> ?A \<and> ?G \<and> ?B"
  proof
    assume h: ?dp
    show "?A \<and> ?G \<and> ?B"
      by (rule conjI[OF a[OF h] conjI[OF g[OF h] b[OF h]]])
  qed
  show ?thesis
    by (rule conjI[OF S conjI[OF dp c]])
qed

theorem decrypt_holds_back_last_block_witness:
  "ctx_ok (demo_traced False True []) \<and> \<not> enc (demo_traced False True []) \<and>
   pad (demo_traced False True []) \<and>
   (\<exists>ctx' out outl.
      aes_updates (traced shift_ciph) (demo_traced False True [])
        [replicate 10 1, replicate 22 2, []] = Inr (ctx', out, outl) \<and>
      bufsz ctx' = 16 \<and> pending ctx' = replicate 16 2 \<and>
      snd (ks ctx') = replicate 10 1 @ replicate 6 2)"
proof -
  let ?c = "demo_traced False True []"
  let ?ch = "[replicate 10 1, replicate 22 2, []] :: byte list list"
  have ok: "ctx_ok ?c" by code_simp
  have dp: "\<not> enc ?c \<and> pad ?c" by code_simp
  have v: "map_sum (\<lambda>_. ()) (\<lambda>(c', out, n). n) (aes_updates (traced shift_ciph) ?c ?ch) = Inr 16"
    by code_simp
  then obtain ctx' out outl where r: "aes_updates (traced shift_ciph) ?c ?ch = Inr (ctx', out, outl)"
    by (cases "aes_updates (traced shift_ciph) ?c ?ch") auto
  have ne: "pending ?c @ concat ?ch \<noteq> []" by code_simp
  have m: "length (pending ?c @ concat ?ch) mod AES_BLOCK_SIZE = 0" by code_simp
  have d: "drop (length (pending ?c @ concat ?ch) - AES_BLOCK_SIZE) (pending ?c @ concat ?ch) =
      replicate 16 2"
    by code_simp
  have t: "snd (ks ?c) @ take (length (pending ?c @ concat ?ch) - AES_BLOCK_SIZE) (pending ?c @ concat ?ch) =
      replicate 10 1 @ replicate 6 2"
    by code_simp
  have s: "AES_BLOCK_SIZE = 16" by (simp add: AES_BLOCK_SIZE_def)
  have "bufsz ctx' = AES_BLOCK_SIZE \<and>
      pending ctx' = drop (length (pending ?c @ concat ?ch) - AES_BLOCK_SIZE) (pending ?c @ concat ?ch) \<and>
      snd (ks ctx') = snd (ks ?c) @
        take (length (pending ?c @ concat ?ch) - AES_BLOCK_SIZE) (pending ?c @ concat ?ch)"
    using decrypt_holds_back_last_block[OF ok, of shift_ciph ?ch "[]"] dp r ne m by auto
  then have "bufsz ctx' = AES_BLOCK_SIZE \<and> pending ctx' = replicate 16 2 \<and>
      snd (ks ctx') = replicate 10 1 @ replicate 6 2"
    unfolding d t .
  then have "bufsz ctx' = 16 \<and> pending ctx' = replicate 16 2 \<and>
      snd (ks ctx') = replicate 10 1 @ replicate 6 2"
    unfolding s .
  then show ?thesis using ok dp r by blast
qed

section \<open>Padding\<close>

lemma generic_init_fields:
  "bufsz (PROV_AES_KEY_generic_init c v e) = bufsz c"
  "buf (PROV_AES_KEY_generic_init c v e) = buf c"
  "pad (PROV_AES_KEY_generic_init c v e) = pad c"
  "enc (PROV_AES_KEY_generic_init c v e) = e"
  "ks (PROV_AES_KEY_generic_init c v e) = ks c"
  by (simp_all add: PROV_AES_KEY_generic_init_def split: option.splits)

lemma aes_einit_fields:
  assumes "aes_einit ciph c k v = (r, c1)"
  shows "bufsz c1 = bufsz c \<and> buf c1 = buf c \<and> pad c1 = pad c \<and> enc c1"
  using assms
  by (auto simp add: aes_einit_def Let_def generic_init_fields split: option.splits prod.splits)


lemma aes_einit_traced:
  assumes "aes_einit (traced ciph) c k v = (r, c1)"
  shows "snd (ks c1) = snd (ks c)"
  using assms
  by (auto simp add: aes_einit_def Let_def generic_init_fields traced_def split: option.splits prod.splits)

lemma init_ctx_ok:
  assumes "bufsz c1 = bufsz c \<and> buf c1 = buf c \<and> P" "ctx_ok c"
  shows "ctx_ok c1"
  using assms by (simp add: ctx_ok_def)

lemma held_len_enc: "enc c \<Longrightarrow> held_len c n = n mod 16"
  by (simp add: held_len_def AES_BLOCK_SIZE_def)

lemma encrypt_stream_journal:
  assumes ok: "ctx_ok ctx" "bufsz ctx = 0" "pad ctx"
    and r: "encrypt_stream (traced ciph) ctx key_opt iv_opt chunks = Some (ctx', C)"
    and p: "p = 16 - length (concat chunks) mod 16"
  shows "snd (ks ctx') = snd (ks ctx) @ concat chunks @ replicate p (of_nat p)"
proof -
  define P where "P = concat chunks"
  obtain c1 where i: "aes_einit (traced ciph) ctx key_opt iv_opt = (True, c1)"
    using r unfolding encrypt_stream_def
    by (cases "aes_einit (traced ciph) ctx key_opt iv_opt") (auto split: bool.splits)
  note f1 = aes_einit_fields[OF i]
  have ok1: "ctx_ok c1" by (rule init_ctx_ok[OF f1 ok(1)])
  have j1: "snd (ks c1) = snd (ks ctx)" by (rule aes_einit_traced[OF i])
  have e1: "enc c1" "pad c1" "bufsz c1 = 0" using f1 ok by simp_all
  have pe1: "pending c1 = []" using e1 by (simp add: pending_def)
  obtain c2 o2 l2 where u: "aes_updates (traced ciph) c1 chunks = Inr (c2, o2, l2)"
    using r i unfolding encrypt_stream_def
    by (cases "aes_updates (traced ciph) c1 chunks") (auto split: sum.splits)
  have D: "P = pending c1 @ concat chunks" by (simp add: pe1 P_def)
  have rest: "bufsz c1 = 16 \<longrightarrow> \<not> enc c1 \<and> pad c1" using e1 by simp
  note q = aes_updates_Inr[OF ok1 u D rest]
  have l2: "l2 = length P - length P mod 16" using q e1(1) by (simp add: held_len_enc)
  have b2: "bufsz c2 = length P mod 16" using q e1(1) by (simp add: held_len_enc)
  have pe2: "pending c2 = drop l2 P" using q by blast
  have ok2: "ctx_ok c2" using q by blast
  have e2: "enc c2" "pad c2" using q e1 by simp_all
  have j2: "snd (ks c2) = snd (ks ctx) @ take l2 P"
    using aes_updates_traced[OF ok1 u] j1 by (simp add: pe1 P_def)
  obtain c3 o3 l3 where fin: "aes_final (traced ciph) c2 = Inr (c3, o3, l3)"
    and res: "ctx' = c3"
    using r i u unfolding encrypt_stream_def
    by (cases "aes_final (traced ciph) c2") (auto split: sum.splits)
  define blk :: "byte list" where "blk = pending c2 @ replicate p (of_nat p)"
  have pp: "p = AES_BLOCK_SIZE - bufsz c2"
    unfolding p b2 by (simp add: P_def AES_BLOCK_SIZE_def)
  have bb: "blk = pending c2 @ replicate (16 - bufsz c2) (of_nat (16 - bufsz c2))"
    unfolding blk_def pp AES_BLOCK_SIZE_def ..
  have fe: "aes_final (traced ciph) c2 =
          (case cipher (traced ciph) (c2\<lparr>buf := blk\<rparr>) blk of
             (s, None) \<Rightarrow> Inl (c2\<lparr>buf := blk, ks := s\<rparr>)
           | (s, Some ob) \<Rightarrow> Inr (c2\<lparr>buf := blk, ks := s, bufsz := 0\<rparr>, ob, 16))"
    by (rule aes_final_enc_padded[OF e2(1) ok2 e2(2) bb])
  obtain s rr where c: "cipher (traced ciph) (c2\<lparr>buf := blk\<rparr>) blk = (s, rr)"
    by (cases "cipher (traced ciph) (c2\<lparr>buf := blk\<rparr>) blk")
  have k3: "ks c3 = s"
    using fin unfolding fe c by (cases rr) auto
  have "snd s = snd (ks c2) @ blk"
    using traced_cipher[OF c] by simp
  then have "snd (ks c3) = snd (ks ctx) @ take l2 P @ drop l2 P @ replicate p (of_nat p)"
    unfolding k3 j2 blk_def pe2 by simp
  then show ?thesis
    unfolding res P_def by simp
qed

lemma aes_final_enc_journal:
  assumes ok: "ctx_ok c" and e: "enc c" and p: "pad c"
    and r: "aes_final (traced ciph) c = Inr (c', out, outl)"
  shows "snd (ks c') = snd (ks c) @ pending c @ replicate (16 - bufsz c) (of_nat (16 - bufsz c)) \<and>
         outl = 16"
proof -
  define blk :: "byte list" where
    "blk = pending c @ replicate (16 - bufsz c) (of_nat (16 - bufsz c))"
  note fe = aes_final_enc_padded[OF e ok p blk_def, of "traced ciph"]
  obtain s rr where q: "cipher (traced ciph) (c\<lparr>buf := blk\<rparr>) blk = (s, rr)"
    by (cases "cipher (traced ciph) (c\<lparr>buf := blk\<rparr>) blk")
  have k: "ks c' = s \<and> outl = 16"
    using r unfolding fe q by (cases rr) auto
  have "snd s = snd (ks c) @ blk"
    using traced_cipher[OF q] by simp
  then show ?thesis
    using k unfolding blk_def by simp
qed

text \<open>
  C6, as amended.  \<^verbatim>\<open>final\<close> on an encrypting context with padding enabled hands the
  transform the pending bytes followed by pad bytes, as many as the block size minus
  the number of pending bytes and each of that value, and reports one block; with a
  whole block pending that is no pad byte at all.  An encrypt stream with padding
  enabled that starts with nothing pending passes to the transform, over all its
  \<^verbatim>\<open>update\<close> calls and its \<^verbatim>\<open>final\<close>, exactly the plaintext followed by \<open>p\<close> bytes of
  value \<open>p\<close>, where \<open>p\<close> is the block size minus the plaintext length modulo the
  block size; \<open>p\<close> is between 1 and the block size, so a plaintext that ends on a
  block boundary gets a whole block of padding.  On the decrypting side the
  validation of a block rejects a last byte outside \<open>[1, block size]\<close>, rejects when
  one of the last \<open>p\<close> bytes differs from \<open>p\<close>, and otherwise yields the block size
  minus \<open>p\<close>.
\<close>

theorem padding_scheme:
  shows
   "(ctx_ok c \<and> enc c \<and> pad c \<and> aes_final (traced ciph) c = Inr (c', out, outl) \<longrightarrow>
        snd (ks c') = snd (ks c) @ pending c @
          replicate (AES_BLOCK_SIZE - bufsz c) (of_nat (AES_BLOCK_SIZE - bufsz c)) \<and>
        outl = AES_BLOCK_SIZE) \<and>
    (ctx_ok ctx \<and> bufsz ctx = 0 \<and> pad ctx \<and>
     encrypt_stream (traced ciph) ctx key_opt iv_opt chunks = Some (ctx', C) \<longrightarrow>
        snd (ks ctx') = snd (ks ctx) @ concat chunks @
          replicate (AES_BLOCK_SIZE - length (concat chunks) mod AES_BLOCK_SIZE)
            (of_nat (AES_BLOCK_SIZE - length (concat chunks) mod AES_BLOCK_SIZE))) \<and>
    1 \<le> AES_BLOCK_SIZE - length (concat chunks) mod AES_BLOCK_SIZE \<and>
    AES_BLOCK_SIZE - length (concat chunks) mod AES_BLOCK_SIZE \<le> AES_BLOCK_SIZE \<and>
    (length ob = AES_BLOCK_SIZE \<longrightarrow>
       (unat (last ob) < 1 \<or> AES_BLOCK_SIZE < unat (last ob) \<longrightarrow>
          unpadblock ob n AES_BLOCK_SIZE = None) \<and>
       ((\<exists>x \<in> set (drop (AES_BLOCK_SIZE - unat (last ob)) ob). unat x \<noteq> unat (last ob)) \<longrightarrow>
          unpadblock ob n AES_BLOCK_SIZE = None) \<and>
       (1 \<le> unat (last ob) \<and> unat (last ob) \<le> AES_BLOCK_SIZE \<and>
        (\<forall>x \<in> set (drop (AES_BLOCK_SIZE - unat (last ob)) ob). unat x = unat (last ob)) \<longrightarrow>
          unpadblock ob n AES_BLOCK_SIZE = Some (AES_BLOCK_SIZE - unat (last ob))))"
    (is "?F \<and> ?J \<and> ?lo \<and> ?hi \<and> ?U")
proof -
  have f: ?F
    unfolding AES_BLOCK_SIZE_def
  proof (intro impI, elim conjE)
    assume "ctx_ok c" "enc c" "pad c" "aes_final (traced ciph) c = Inr (c', out, outl)"
    then show "snd (ks c') = snd (ks c) @ pending c @ replicate (16 - bufsz c) (of_nat (16 - bufsz c)) \<and>
        outl = 16"
      by (rule aes_final_enc_journal)
  qed
  have j: ?J
    unfolding AES_BLOCK_SIZE_def
  proof (intro impI, elim conjE)
    assume h: "ctx_ok ctx" "bufsz ctx = 0" "pad ctx"
      "encrypt_stream (traced ciph) ctx key_opt iv_opt chunks = Some (ctx', C)"
    show "snd (ks ctx') = snd (ks ctx) @ concat chunks @
          replicate (16 - length (concat chunks) mod 16) (of_nat (16 - length (concat chunks) mod 16))"
      by (rule encrypt_stream_journal[OF h refl])
  qed
  have "length (concat chunks) mod 16 < 16" by simp
  then have lo: ?lo and hi: ?hi unfolding AES_BLOCK_SIZE_def by linarith+
  have u: ?U
    unfolding AES_BLOCK_SIZE_def
  proof
    assume l: "length ob = 16"
    define p where "p = unat (last ob)"
    define allp where "allp = (\<forall>x \<in> set (drop (16 - p) ob). unat x = p)"
    have e: "unpadblock ob n 16 = (if 1 \<le> p \<and> p \<le> 16 \<and> allp then Some (16 - p) else None)"
      unfolding unpadblock_eq[OF l] p_def allp_def ..
    have nall: "(\<exists>x \<in> set (drop (16 - p) ob). unat x \<noteq> p) = (\<not> allp)"
      unfolding allp_def by blast
    have a: "p < 1 \<or> 16 < p \<longrightarrow> unpadblock ob n 16 = None"
      unfolding e by (cases "1 \<le> p"; cases "p \<le> 16") simp_all
    have b: "(\<exists>x \<in> set (drop (16 - p) ob). unat x \<noteq> p) \<longrightarrow> unpadblock ob n 16 = None"
      unfolding e nall by simp
    have c: "1 \<le> p \<and> p \<le> 16 \<and> (\<forall>x \<in> set (drop (16 - p) ob). unat x = p) \<longrightarrow>
          unpadblock ob n 16 = Some (16 - p)"
      unfolding e allp_def[symmetric] by simp
    show "(unat (last ob) < 1 \<or> 16 < unat (last ob) \<longrightarrow> unpadblock ob n 16 = None) \<and>
       ((\<exists>x \<in> set (drop (16 - unat (last ob)) ob). unat x \<noteq> unat (last ob)) \<longrightarrow>
          unpadblock ob n 16 = None) \<and>
       (1 \<le> unat (last ob) \<and> unat (last ob) \<le> 16 \<and>
        (\<forall>x \<in> set (drop (16 - unat (last ob)) ob). unat x = unat (last ob)) \<longrightarrow>
          unpadblock ob n 16 = Some (16 - unat (last ob)))"
      using a b c unfolding p_def by (intro conjI)
  qed
  show ?thesis by (rule conjI[OF f conjI[OF j conjI[OF lo conjI[OF hi u]]]])
qed

theorem padding_scheme_witness:
  "ctx_ok (demo_traced False True []) \<and> bufsz (demo_traced False True []) = 0 \<and>
   pad (demo_traced False True []) \<and>
   (\<exists>ctx' C. encrypt_stream (traced shift_ciph) (demo_traced False True [])
        (Some (replicate 16 3)) None [[72, 69], [76, 76, 79]] = Some (ctx', C) \<and>
      snd (ks ctx') = [72, 69, 76, 76, 79] @ replicate 11 11) \<and>
   ctx_ok (demo_traced True True [72, 69, 76, 76, 79]) \<and>
   enc (demo_traced True True [72, 69, 76, 76, 79]) \<and>
   pad (demo_traced True True [72, 69, 76, 76, 79]) \<and>
   (\<exists>c' out. aes_final (traced shift_ciph) (demo_traced True True [72, 69, 76, 76, 79]) =
        Inr (c', out, 16) \<and>
      snd (ks c') = [72, 69, 76, 76, 79] @ replicate 11 11) \<and>
   unpadblock [72, 69, 76, 76, 79, 11, 11, 11, 11, 11, 11, 11, 11, 11, 11, 11] 16 AES_BLOCK_SIZE = Some 5 \<and>
   unpadblock [72, 69, 76, 76, 79, 11, 11, 11, 11, 11, 11, 11, 11, 11, 11, 17] 16 AES_BLOCK_SIZE = None \<and>
   unpadblock [72, 69, 76, 76, 79, 11, 11, 11, 11, 11, 9, 11, 11, 11, 11, 11] 16 AES_BLOCK_SIZE = None"
proof -
  let ?c = "demo_traced False True []"
  let ?f = "demo_traced True True [72, 69, 76, 76, 79]"
  let ?ch = "[[72, 69], [76, 76, 79]] :: byte list list"
  have ok: "ctx_ok ?c" by code_simp
  have b: "bufsz ?c = 0" by code_simp
  have p: "pad ?c" by code_simp
  have okf: "ctx_ok ?f" by code_simp
  have ef: "enc ?f" by code_simp
  have pf: "pad ?f" by code_simp
  have v: "map_option (\<lambda>(c, out). length out)
      (encrypt_stream (traced shift_ciph) ?c (Some (replicate 16 3)) None ?ch) = Some 16"
    by code_simp
  then obtain ctx' C where
    r: "encrypt_stream (traced shift_ciph) ?c (Some (replicate 16 3)) None ?ch = Some (ctx', C)"
    by (cases "encrypt_stream (traced shift_ciph) ?c (Some (replicate 16 3)) None ?ch") auto
  have w: "map_sum (\<lambda>_. ()) (\<lambda>(c', out, n). n) (aes_final (traced shift_ciph) ?f) = Inr 16"
    by code_simp
  then obtain c' out where rf: "aes_final (traced shift_ciph) ?f = Inr (c', out, 16)"
    by (cases "aes_final (traced shift_ciph) ?f") auto
  have e: "snd (ks ?c) @ concat ?ch @
          replicate (AES_BLOCK_SIZE - length (concat ?ch) mod AES_BLOCK_SIZE)
            (of_nat (AES_BLOCK_SIZE - length (concat ?ch) mod AES_BLOCK_SIZE)) =
        [72, 69, 76, 76, 79] @ replicate 11 (11 :: byte)"
    by code_simp
  have e2: "snd (ks ?f) @ pending ?f @
          replicate (AES_BLOCK_SIZE - bufsz ?f) (of_nat (AES_BLOCK_SIZE - bufsz ?f)) =
        [72, 69, 76, 76, 79] @ replicate 11 (11 :: byte)"
    by code_simp
  note T = padding_scheme[where c="?f" and ciph=shift_ciph and c'=c' and out=out and outl=16
      and ctx="?c" and key_opt="Some (replicate 16 3)" and iv_opt=None and chunks="?ch"
      and ctx'=ctx' and C=C and ob="[]" and n=0]
  have "snd (ks ctx') = snd (ks ?c) @ concat ?ch @
          replicate (AES_BLOCK_SIZE - length (concat ?ch) mod AES_BLOCK_SIZE)
            (of_nat (AES_BLOCK_SIZE - length (concat ?ch) mod AES_BLOCK_SIZE))"
    by (rule mp[OF T[THEN conjunct2, THEN conjunct1]]) (intro conjI ok b p r)
  then have j: "snd (ks ctx') = [72, 69, 76, 76, 79] @ replicate 11 11"
    unfolding e .
  have "snd (ks c') = snd (ks ?f) @ pending ?f @
          replicate (AES_BLOCK_SIZE - bufsz ?f) (of_nat (AES_BLOCK_SIZE - bufsz ?f)) \<and>
        16 = AES_BLOCK_SIZE"
    by (rule mp[OF T[THEN conjunct1]]) (intro conjI okf ef pf rf)
  then have j2: "snd (ks c') = [72, 69, 76, 76, 79] @ replicate 11 11"
    unfolding e2 by (rule conjunct1)
  have u1: "unpadblock [72, 69, 76, 76, 79, 11, 11, 11, 11, 11, 11, 11, 11, 11, 11, 11] 16 AES_BLOCK_SIZE = Some 5"
    by code_simp
  have u2: "unpadblock [72, 69, 76, 76, 79, 11, 11, 11, 11, 11, 11, 11, 11, 11, 11, 17] 16 AES_BLOCK_SIZE = None"
    by code_simp
  have u3: "unpadblock [72, 69, 76, 76, 79, 11, 11, 11, 11, 11, 9, 11, 11, 11, 11, 11] 16 AES_BLOCK_SIZE = None"
    by code_simp
  have s1: "\<exists>ctx' C. encrypt_stream (traced shift_ciph) ?c (Some (replicate 16 3)) None ?ch = Some (ctx', C) \<and>
      snd (ks ctx') = [72, 69, 76, 76, 79] @ replicate 11 11"
    using r j by blast
  have s2: "\<exists>c' out. aes_final (traced shift_ciph) ?f = Inr (c', out, 16) \<and>
      snd (ks c') = [72, 69, 76, 76, 79] @ replicate 11 11"
    using rf j2 by blast
  show ?thesis by (intro conjI ok b p s1 okf ef pf s2 u1 u2 u3)
qed

text \<open>
  The claim C6 as stated, padding never omitted, fails: \<^verbatim>\<open>init\<close> does not reset the
  fill count, so a fresh context after \<^verbatim>\<open>decrypt_init\<close>, an \<^verbatim>\<open>update\<close> of one block and
  \<^verbatim>\<open>encrypt_init\<close> is encrypting with padding enabled and a whole block pending, and
  \<^verbatim>\<open>final\<close> there hands the transform those 16 bytes and no pad byte.
\<close>

theorem padding_omitted_on_full_pending:
  "reachable (traced shift_ciph) kv_api ((0, False), [])
     (ctx_after (traced shift_ciph) kv_api (Einit None None)
       (ctx_after (traced shift_ciph) kv_api (Update (replicate 16 7))
         (ctx_after (traced shift_ciph) kv_api (Dinit (Some (replicate 16 3)) None)
           (aes_128_ecb_newctx ((0, False), []))))) \<and>
   (\<lambda>c. (enc c, pad c, pending c, snd (ks c)))
     (ctx_after (traced shift_ciph) kv_api (Einit None None)
       (ctx_after (traced shift_ciph) kv_api (Update (replicate 16 7))
         (ctx_after (traced shift_ciph) kv_api (Dinit (Some (replicate 16 3)) None)
           (aes_128_ecb_newctx ((0, False), []))))) = (True, True, replicate 16 7, []) \<and>
   map_sum (\<lambda>_. ()) (\<lambda>(c', out, outl). (snd (ks c'), outl))
     (aes_final (traced shift_ciph)
       (ctx_after (traced shift_ciph) kv_api (Einit None None)
         (ctx_after (traced shift_ciph) kv_api (Update (replicate 16 7))
           (ctx_after (traced shift_ciph) kv_api (Dinit (Some (replicate 16 3)) None)
             (aes_128_ecb_newctx ((0, False), [])))))) = Inr (replicate 16 7, 16)"
proof -
  let ?c = "ctx_after (traced shift_ciph) kv_api (Einit None None)
       (ctx_after (traced shift_ciph) kv_api (Update (replicate 16 7))
         (ctx_after (traced shift_ciph) kv_api (Dinit (Some (replicate 16 3)) None)
           (aes_128_ecb_newctx ((0, False), []))))"
  have r: "reachable (traced shift_ciph) kv_api ((0, False), []) ?c"
    by (intro reachable.call reachable.new128)
  have s: "(\<lambda>c. (enc c, pad c, pending c, snd (ks c))) ?c = (True, True, replicate 16 7, [])"
    by code_simp
  have v: "map_sum (\<lambda>_. ()) (\<lambda>(c', out, outl). (snd (ks c'), outl))
     (aes_final (traced shift_ciph) ?c) = Inr (replicate 16 7, 16)"
    by code_simp
  show ?thesis by (intro conjI r s v)
qed

section \<open>Encrypting, then decrypting\<close>



















end
